theory Spec2Isabelle
  imports Complex_Main "HOL-Library.Sublist"
begin

section \<open>Blood colour profiles and HSL matching\<close>

text \<open>
  The application source holds three successive variants of the analysis code in one
  file. The flash-aware variant declares the profile table with the labels
  \<open>Bright Red, Dark Red, Maroon, Brown, Dark/Tarry\<close> and a hatch style; the
  bowl-mask variant declares the same ranges with the labels \<open>Brown Blood\<close> and
  \<open>Black (Tarry)\<close>, other colours and severities, and no hatch style.

  JavaScript numbers are modelled as exact reals: rounding of IEEE doubles is not
  part of the model. A division whose divisor is zero yields a non-finite number in
  JavaScript; the model makes that visible as \<open>None\<close>.
\<close>

text \<open>
  A content profile has a label, the three ranges and a colour; a blood profile has a
  severity and (in the flash-aware variant) a hatch style as well.
\<close>

record colorRange =
  label :: string
  hMin :: real
  hMax :: real
  sMin :: real
  sMax :: real
  lMin :: real
  lMax :: real
  color :: string

record profile = colorRange +
  severity :: string
  hatchStyle :: "string option"

definition BLOOD_PROFILES :: "profile list" where
  "BLOOD_PROFILES =
   [\<lparr>label = ''Bright Red'', hMin = 0, hMax = 15, sMin = 45, sMax = 100, lMin = 25, lMax = 55,
      color = ''#60a5fa'', severity = ''look_into'', hatchStyle = Some ''vertical''\<rparr>,
    \<lparr>label = ''Dark Red'', hMin = 340, hMax = 360, sMin = 40, sMax = 100, lMin = 15, lMax = 40,
      color = ''#60a5fa'', severity = ''look_into'', hatchStyle = Some ''vertical''\<rparr>,
    \<lparr>label = ''Maroon'', hMin = 0, hMax = 20, sMin = 30, sMax = 80, lMin = 10, lMax = 25,
      color = ''#fb923c'', severity = ''monitor'', hatchStyle = Some ''diagonal''\<rparr>,
    \<lparr>label = ''Brown'', hMin = 15, hMax = 40, sMin = 25, sMax = 70, lMin = 8, lMax = 22,
      color = ''#fb923c'', severity = ''monitor'', hatchStyle = Some ''diagonal''\<rparr>,
    \<lparr>label = ''Dark/Tarry'', hMin = 0, hMax = 360, sMin = 0, sMax = 30, lMin = 2, lMax = 10,
      color = ''#c084fc'', severity = ''keep_watch'', hatchStyle = Some ''dots''\<rparr>]"

definition BLOOD_PROFILES_bowl :: "profile list" where
  "BLOOD_PROFILES_bowl =
   [\<lparr>label = ''Bright Red'', hMin = 0, hMax = 15, sMin = 45, sMax = 100, lMin = 25, lMax = 55,
      color = ''#ef4444'', severity = ''urgent'', hatchStyle = None\<rparr>,
    \<lparr>label = ''Dark Red'', hMin = 340, hMax = 360, sMin = 40, sMax = 100, lMin = 15, lMax = 40,
      color = ''#991b1b'', severity = ''urgent'', hatchStyle = None\<rparr>,
    \<lparr>label = ''Maroon'', hMin = 0, hMax = 20, sMin = 30, sMax = 80, lMin = 10, lMax = 25,
      color = ''#7f1d1d'', severity = ''warning'', hatchStyle = None\<rparr>,
    \<lparr>label = ''Brown Blood'', hMin = 15, hMax = 40, sMin = 25, sMax = 70, lMin = 8, lMax = 22,
      color = ''#b45309'', severity = ''warning'', hatchStyle = None\<rparr>,
    \<lparr>label = ''Black (Tarry)'', hMin = 0, hMax = 360, sMin = 0, sMax = 30, lMin = 2, lMax = 10,
      color = ''#1f2937'', severity = ''caution'', hatchStyle = None\<rparr>]"

text \<open>Division of two numbers; \<open>None\<close> stands for the non-finite result of a zero divisor.\<close>

definition fdiv :: "real \<Rightarrow> real \<Rightarrow> real option" where
  "fdiv a b = (if b = 0 then None else Some (a / b))"

text \<open>
  \<open>rgbToHsl\<close>: the result is the triple \<open>(h, s, l)\<close> of the returned object. The
  chain \<open>mx===r / mx===g / else\<close> (a \<open>switch\<close> on the maximum in the bowl-mask
  variant) is kept in its order.
\<close>

definition rgbToHsl :: "real \<Rightarrow> real \<Rightarrow> real \<Rightarrow> (real \<times> real \<times> real) option" where
  "rgbToHsl r0 g0 b0 =
    (let r = r0 / 255; g = g0 / 255; b = b0 / 255;
         mx = max r (max g b); mn = min r (min g b);
         l = (mx + mn) / 2
     in if mx = mn then Some (0 * 360, 0 * 100, l * 100)
        else
          (let d = mx - mn in
           case (if l > 0.5 then fdiv d (2 - mx - mn) else fdiv d (mx + mn)) of
             None \<Rightarrow> None
           | Some s \<Rightarrow>
              (case (if mx = r then fdiv (g - b) d
                     else if mx = g then fdiv (b - r) d
                     else fdiv (r - g) d) of
                 None \<Rightarrow> None
               | Some q \<Rightarrow>
                  (let h = (if mx = r then (q + (if g < b then 6 else 0)) / 6
                            else if mx = g then (q + 2) / 6
                            else (q + 4) / 6)
                   in Some (h * 360, s * 100, l * 100)))))"

text \<open>The hue test of one profile: a plain range, or a wrapped one when \<open>hMin > hMax\<close>.\<close>

definition hOk :: "'a colorRange_scheme \<Rightarrow> real \<Rightarrow> bool" where
  "hOk p h = (if hMin p \<le> hMax p then (h \<ge> hMin p \<and> h \<le> hMax p)
              else (h \<ge> hMin p \<or> h \<le> hMax p))"

definition profileMatches :: "'a colorRange_scheme \<Rightarrow> real \<Rightarrow> real \<Rightarrow> real \<Rightarrow> bool" where
  "profileMatches p h s l =
     (hOk p h \<and> s \<ge> sMin p \<and> s \<le> sMax p \<and> l \<ge> lMin p \<and> l \<le> lMax p)"

text \<open>The loop \<open>for (const p of ...)\<close> with its early return.\<close>

fun firstMatch :: "profile list \<Rightarrow> real \<Rightarrow> real \<Rightarrow> real \<Rightarrow> profile option" where
  "firstMatch [] h s l = None"
| "firstMatch (p # ps) h s l =
     (if profileMatches p h s l then Some p else firstMatch ps h s l)"

text \<open>
  \<open>matchesBlood\<close>, over the table of the variant. A non-finite component fails every
  comparison, so no profile is returned for it.
\<close>

definition matchesBloodIn :: "profile list \<Rightarrow> real \<Rightarrow> real \<Rightarrow> real \<Rightarrow> profile option" where
  "matchesBloodIn profiles r g b =
     (case rgbToHsl r g b of None \<Rightarrow> None | Some (h, s, l) \<Rightarrow> firstMatch profiles h s l)"


section \<open>Reading the pixel buffer, counted loops\<close>

text \<open>
  The buffer is the byte array of an \<open>ImageData\<close>. A read past its end is
  \<open>undefined\<close> in JavaScript; the model returns \<open>None\<close>.
\<close>

definition byteAt :: "nat list \<Rightarrow> nat \<Rightarrow> nat option" where
  "byteAt data i = (if i < length data then Some (data ! i) else None)"

text \<open>\<open>for (let i = i0; i < n; i += 2) s = f i s\<close>, and the same with step 16.\<close>

function forBy2 :: "nat \<Rightarrow> nat \<Rightarrow> (nat \<Rightarrow> 'a \<Rightarrow> 'a) \<Rightarrow> 'a \<Rightarrow> 'a" where
  "forBy2 i n f s = (if i < n then forBy2 (i + 2) n f (f i s) else s)"
  by pat_completeness auto
termination
  by (relation "measure (\<lambda>(i, n, f, s). n - i)") auto

function forBy16 :: "nat \<Rightarrow> nat \<Rightarrow> (nat \<Rightarrow> 'a \<Rightarrow> 'a) \<Rightarrow> 'a \<Rightarrow> 'a" where
  "forBy16 i n f s = (if i < n then forBy16 (i + 16) n f (f i s) else s)"
  by pat_completeness auto
termination
  by (relation "measure (\<lambda>(i, n, f, s). n - i)") auto

declare forBy2.simps [simp del] forBy16.simps [simp del]

section \<open>White-balance gains (flash-aware variant)\<close>














section \<open>Clustering matched pixels into bounding boxes\<close>

text \<open>
  A matched pixel is \<open>{x, y, profile}\<close>, here the triple \<open>(x, y, profile)\<close>.
  A grid cell holds a count and a tally per profile label; the tally is an object
  whose keys are enumerated in insertion order (no label is an array index), so it
  is an association list.
\<close>

type_synonym pixel = "nat \<times> nat \<times> profile"

record cell =
  count :: nat
  profiles :: "(string \<times> nat) list"

record box =
  box_x :: nat
  box_y :: nat
  box_w :: nat
  box_h :: nat
  box_label :: string
  box_color :: string
  box_severity :: string
  box_hatchStyle :: "string option"
  box_pixels :: nat

datatype error = TypeError

definition GRID :: nat where "GRID = 12"
definition THRESHOLD :: nat where "THRESHOLD = 3"

text \<open>\<open>t[k] = (t[k] || 0) + v\<close>: an existing key keeps its place, a new one goes last.\<close>

fun addTally :: "string \<Rightarrow> nat \<Rightarrow> (string \<times> nat) list \<Rightarrow> (string \<times> nat) list" where
  "addTally k v [] = [(k, 0 + v)]"
| "addTally k v ((k', n) # kvs) =
     (if k' = k then (k', n + v) # kvs else (k', n) # addTally k v kvs)"

text \<open>
  One step of \<open>pixels.forEach\<close>: a cell index past the grid reads \<open>undefined\<close>,
  and \<open>cell.count++\<close> then throws.
\<close>

definition addPixel :: "nat \<Rightarrow> pixel \<Rightarrow> cell list \<Rightarrow> error + cell list" where
  "addPixel gridW px grid =
     (case px of (x, y, p) \<Rightarrow>
        let gx = x div GRID; gy = y div GRID; i = gy * gridW + gx
        in if i < length grid
           then Inr (grid[i := \<lparr>count = count (grid ! i) + 1,
                                 profiles = addTally (label p) 1 (profiles (grid ! i))\<rparr>])
           else Inl TypeError)"

fun fillGrid :: "nat \<Rightarrow> pixel list \<Rightarrow> cell list \<Rightarrow> error + cell list" where
  "fillGrid gridW [] grid = Inr grid"
| "fillGrid gridW (px # pxs) grid =
     (case addPixel gridW px grid of Inl e \<Rightarrow> Inl e | Inr grid' \<Rightarrow> fillGrid gridW pxs grid')"

text \<open>The state of one flood fill: the queue, the visited set and the running totals.\<close>

record fill =
  queue :: "nat list"
  visited :: "nat set"
  minX :: nat
  maxX :: nat
  minY :: nat
  maxY :: nat
  totalPixels :: nat
  profileTotals :: "(string \<times> nat) list"

text \<open>One neighbour \<open>[nx, ny]\<close> of the \<open>neighbors.forEach\<close>.\<close>

definition visitNeighbour ::
  "cell list \<Rightarrow> nat \<Rightarrow> nat \<Rightarrow> int \<times> int \<Rightarrow> fill \<Rightarrow> fill" where
  "visitNeighbour grid gridW gridH n st =
     (case n of (nx, ny) \<Rightarrow>
        if nx < 0 \<or> ny < 0 \<or> nx \<ge> int gridW \<or> ny \<ge> int gridH then st
        else
          let ni = nat (ny * int gridW + nx)
          in if ni \<notin> visited st \<and> count (grid ! ni) \<ge> THRESHOLD
             then st\<lparr>visited := insert ni (visited st), queue := queue st @ [ni]\<rparr>
             else st)"

text \<open>The body of \<open>while (queue.length)\<close> for the head \<open>ci\<close> taken by \<open>shift\<close>.\<close>

definition fillStep :: "cell list \<Rightarrow> nat \<Rightarrow> nat \<Rightarrow> nat \<Rightarrow> fill \<Rightarrow> fill" where
  "fillStep grid gridW gridH ci st =
     (let cx = ci mod gridW; cy = ci div gridW;
          st1 = st\<lparr>minX := min (minX st) cx, maxX := max (maxX st) cx,
                    minY := min (minY st) cy, maxY := max (maxY st) cy,
                    totalPixels := totalPixels st + count (grid ! ci),
                    profileTotals := fold (\<lambda>(k, v). addTally k v) (profiles (grid ! ci))
                                          (profileTotals st)\<rparr>
      in fold (visitNeighbour grid gridW gridH)
           [(int cx - 1, int cy), (int cx + 1, int cy), (int cx, int cy - 1), (int cx, int cy + 1)]
           st1)"

definition fillMeasure :: "nat \<Rightarrow> nat \<Rightarrow> fill \<Rightarrow> nat" where
  "fillMeasure gridW gridH st =
     2 * card ({..<gridW * gridH} - visited st) + length (queue st)"

lemma visitNeighbour_measure:
  "fillMeasure gridW gridH (visitNeighbour grid gridW gridH n st) \<le> fillMeasure gridW gridH st"
proof (cases n)
  case (Pair nx ny)
  show ?thesis
  proof (cases "nx < 0 \<or> ny < 0 \<or> nx \<ge> int gridW \<or> ny \<ge> int gridH")
    case True
    then show ?thesis by (simp add: visitNeighbour_def Pair)
  next
    case False
    define ni where "ni = nat (ny * int gridW + nx)"
    have "ny * int gridW + nx < int gridH * int gridW"
    proof -
      have "ny + 1 \<le> int gridH" using False by simp
      then have "(ny + 1) * int gridW \<le> int gridH * int gridW"
        by (rule mult_right_mono) simp
      then show ?thesis using False by (simp add: algebra_simps)
    qed
    then have in_range: "ni < gridW * gridH"
      unfolding ni_def using False
      by (metis mult.commute nat_less_iff of_nat_mult zero_le_mult_iff add_nonneg_nonneg
          linorder_not_less of_nat_0_le_iff)
    show ?thesis
    proof (cases "ni \<notin> visited st \<and> count (grid ! ni) \<ge> THRESHOLD")
      case True
      have fin: "finite ({..<gridW * gridH} - visited st)" by simp
      have mem: "ni \<in> {..<gridW * gridH} - visited st" using True in_range by simp
      have "{..<gridW * gridH} - insert ni (visited st) = ({..<gridW * gridH} - visited st) - {ni}"
        by auto
      then have "card ({..<gridW * gridH} - insert ni (visited st))
                 = card ({..<gridW * gridH} - visited st) - 1"
        using fin mem by simp
      moreover have "0 < card ({..<gridW * gridH} - visited st)"
        using fin mem card_gt_0_iff by blast
      ultimately show ?thesis
        using True False by (simp add: visitNeighbour_def Pair fillMeasure_def Let_def ni_def)
    next
      case no: False
      then show ?thesis
        using False unfolding ni_def by (auto simp: visitNeighbour_def Pair Let_def)
    qed
  qed
qed

lemma fold_visitNeighbour_measure:
  "fillMeasure gridW gridH (fold (visitNeighbour grid gridW gridH) ns st) \<le> fillMeasure gridW gridH st"
proof (induction ns arbitrary: st)
  case Nil
  then show ?case by simp
next
  case (Cons n ns)
  have "fillMeasure gridW gridH (fold (visitNeighbour grid gridW gridH) ns (visitNeighbour grid gridW gridH n st))
        \<le> fillMeasure gridW gridH (visitNeighbour grid gridW gridH n st)"
    by (rule Cons.IH)
  also have "\<dots> \<le> fillMeasure gridW gridH st" by (rule visitNeighbour_measure)
  finally show ?case by simp
qed

lemma fillStep_measure:
  "fillMeasure gridW gridH (fillStep grid gridW gridH ci (st\<lparr>queue := rest\<rparr>))
     \<le> 2 * card ({..<gridW * gridH} - visited st) + length rest"
proof -
  define st1 where "st1 = st\<lparr>queue := rest\<rparr>
       \<lparr>minX := min (minX (st\<lparr>queue := rest\<rparr>)) (ci mod gridW),
        maxX := max (maxX (st\<lparr>queue := rest\<rparr>)) (ci mod gridW),
        minY := min (minY (st\<lparr>queue := rest\<rparr>)) (ci div gridW),
        maxY := max (maxY (st\<lparr>queue := rest\<rparr>)) (ci div gridW),
        totalPixels := totalPixels (st\<lparr>queue := rest\<rparr>) + count (grid ! ci),
        profileTotals := fold (\<lambda>(k, v). addTally k v) (profiles (grid ! ci))
                              (profileTotals (st\<lparr>queue := rest\<rparr>))\<rparr>"
  have "fillMeasure gridW gridH (fillStep grid gridW gridH ci (st\<lparr>queue := rest\<rparr>))
        \<le> fillMeasure gridW gridH st1"
    unfolding fillStep_def Let_def st1_def by (rule fold_visitNeighbour_measure)
  also have "\<dots> = 2 * card ({..<gridW * gridH} - visited st) + length rest"
    by (simp add: fillMeasure_def st1_def)
  finally show ?thesis .
qed

text \<open>
  \<open>while (queue.length) { const ci = queue.shift(); ... }\<close>. Every cell enters the
  queue at most once, which bounds the loop.
\<close>

function floodFill :: "cell list \<Rightarrow> nat \<Rightarrow> nat \<Rightarrow> fill \<Rightarrow> fill" where
  "floodFill grid gridW gridH st =
     (case queue st of
        [] \<Rightarrow> st
      | ci # rest \<Rightarrow> floodFill grid gridW gridH (fillStep grid gridW gridH ci (st\<lparr>queue := rest\<rparr>)))"
  by pat_completeness auto
termination
proof (relation "measure (\<lambda>(grid, gridW, gridH, st). fillMeasure gridW gridH st)")
  show "wf (measure (\<lambda>(grid, gridW, gridH, st). fillMeasure gridW gridH st))" by simp
next
  fix grid :: "cell list" and gridW gridH :: nat and st :: fill and ci :: nat and rest :: "nat list"
  assume q: "queue st = ci # rest"
  have "fillMeasure gridW gridH (fillStep grid gridW gridH ci (st\<lparr>queue := rest\<rparr>))
        \<le> 2 * card ({..<gridW * gridH} - visited st) + length rest"
    by (rule fillStep_measure)
  also have "\<dots> < fillMeasure gridW gridH st" by (simp add: fillMeasure_def q)
  finally show "((grid, gridW, gridH, fillStep grid gridW gridH ci (st\<lparr>queue := rest\<rparr>)),
                 (grid, gridW, gridH, st))
                \<in> measure (\<lambda>(grid, gridW, gridH, st). fillMeasure gridW gridH st)"
    by simp
qed

declare floodFill.simps [simp del]

text \<open>
  \<open>Object.entries(t).sort((a, b) => b[1] - a[1])[0]\<close>: the sort is stable, so among
  equal tallies the entry enumerated first stays first.
\<close>

definition dominantEntry :: "(string \<times> nat) list \<Rightarrow> (string \<times> nat) option" where
  "dominantEntry t =
     (case sort_key (\<lambda>(k, v). - int v) t of [] \<Rightarrow> None | e # _ \<Rightarrow> Some e)"

text \<open>
  The body of the two nested loops over the grid, for the cell \<open>(gx, gy)\<close>. The state
  is the visited set and the boxes pushed so far. An absent dominant entry or a label
  that is in no profile makes \<open>dominant[0]\<close> or \<open>prof.label\<close> throw.
\<close>

definition scanCell ::
  "profile list \<Rightarrow> cell list \<Rightarrow> nat \<Rightarrow> nat \<Rightarrow> nat \<times> nat \<Rightarrow> nat set \<times> box list
     \<Rightarrow> error + (nat set \<times> box list)" where
  "scanCell profs grid gridW gridH c vb =
     (case c of (gy, gx) \<Rightarrow> case vb of (vis, boxes) \<Rightarrow>
        let idx = gy * gridW + gx
        in if idx \<in> vis \<or> count (grid ! idx) < THRESHOLD then Inr (vis, boxes)
           else
             let st = floodFill grid gridW gridH
                        \<lparr>queue = [idx], visited = insert idx vis,
                         minX = gx, maxX = gx, minY = gy, maxY = gy,
                         totalPixels = 0, profileTotals = []\<rparr>
             in if totalPixels st < 8 then Inr (visited st, boxes)
                else
                  (case dominantEntry (profileTotals st) of
                     None \<Rightarrow> Inl TypeError
                   | Some dominant \<Rightarrow>
                      (case find (\<lambda>p. label p = fst dominant) profs of
                         None \<Rightarrow> Inl TypeError
                       | Some prof \<Rightarrow>
                          Inr (visited st,
                               boxes @
                               [\<lparr>box_x = minX st * GRID, box_y = minY st * GRID,
                                 box_w = (maxX st - minX st + 1) * GRID,
                                 box_h = (maxY st - minY st + 1) * GRID,
                                 box_label = label prof, box_color = color prof,
                                 box_severity = severity prof,
                                 box_hatchStyle = hatchStyle prof,
                                 box_pixels = totalPixels st\<rparr>]))))"

fun scanCells ::
  "profile list \<Rightarrow> cell list \<Rightarrow> nat \<Rightarrow> nat \<Rightarrow> (nat \<times> nat) list \<Rightarrow> nat set \<times> box list
     \<Rightarrow> error + (nat set \<times> box list)" where
  "scanCells profs grid gridW gridH [] vb = Inr vb"
| "scanCells profs grid gridW gridH (c # cs) vb =
     (case scanCell profs grid gridW gridH c vb of
        Inl e \<Rightarrow> Inl e
      | Inr vb' \<Rightarrow> scanCells profs grid gridW gridH cs vb')"

text \<open>\<open>for (gy = 0; gy < gridH; gy++) for (gx = 0; gx < gridW; gx++)\<close>, as \<open>(gy, gx)\<close>.\<close>

definition cellOrder :: "nat \<Rightarrow> nat \<Rightarrow> (nat \<times> nat) list" where
  "cellOrder gridW gridH = concat (map (\<lambda>gy. map (\<lambda>gx. (gy, gx)) [0..<gridW]) [0..<gridH])"

text \<open>\<open>clusterDetections\<close>, over the profile table of the variant.\<close>

definition clusterDetectionsIn ::
  "profile list \<Rightarrow> pixel list \<Rightarrow> nat \<Rightarrow> nat \<Rightarrow> error + box list" where
  "clusterDetectionsIn profs pixels width height =
     (let gridW = nat \<lceil>real width / real GRID\<rceil>;
          gridH = nat \<lceil>real height / real GRID\<rceil>;
          grid0 = replicate (gridW * gridH) \<lparr>count = 0, profiles = []\<rparr>
      in case fillGrid gridW pixels grid0 of
           Inl e \<Rightarrow> Inl e
         | Inr grid \<Rightarrow>
            (case scanCells profs grid gridW gridH (cellOrder gridW gridH) ({}, []) of
               Inl e \<Rightarrow> Inl e
             | Inr (vis, boxes) \<Rightarrow> Inr boxes))"

definition clusterDetections :: "pixel list \<Rightarrow> nat \<Rightarrow> nat \<Rightarrow> error + box list" where
  "clusterDetections pixels width height = clusterDetectionsIn BLOOD_PROFILES pixels width height"

section \<open>The bowl-mask variant of the analysis\<close>

record bowlMask =
  centerX :: real
  centerY :: real
  radiusX :: real
  radiusY :: real

definition BOWL_MASK :: bowlMask where
  "BOWL_MASK = \<lparr>centerX = 0.5, centerY = 0.56, radiusX = 0.38, radiusY = 0.44\<rparr>"

definition MIN_BLOOD_PIXELS :: nat where "MIN_BLOOD_PIXELS = 36"
definition MIN_BLOOD_RATIO :: real where "MIN_BLOOD_RATIO = 0.002"
definition MIN_URINE_RATIO :: real where "MIN_URINE_RATIO = 0.02"
definition MIN_STOOL_RATIO :: real where "MIN_STOOL_RATIO = 0.02"

text \<open>
  \<open>isInBowlMask\<close>. With a zero radius the quotient is not finite and the final
  comparison is false.
\<close>

definition isInBowlMask :: "nat \<Rightarrow> nat \<Rightarrow> nat \<Rightarrow> nat \<Rightarrow> bool" where
  "isInBowlMask x y width height =
     (let cx = real width * centerX BOWL_MASK;
          cy = real height * centerY BOWL_MASK;
          rx = real width * radiusX BOWL_MASK;
          ry = real height * radiusY BOWL_MASK
      in case (fdiv (real x - cx) rx, fdiv (real y - cy) ry) of
           (Some dx, Some dy) \<Rightarrow> dx * dx + dy * dy \<le> 1
         | _ \<Rightarrow> False)"

datatype contentKey = Urine | Stool

definition CONTENT_PROFILES :: "(contentKey \<times> colorRange) list" where
  "CONTENT_PROFILES =
   [(Urine, \<lparr>label = ''Urine'', hMin = 35, hMax = 70, sMin = 15, sMax = 80, lMin = 35, lMax = 80,
              color = ''#facc15''\<rparr>),
    (Stool, \<lparr>label = ''Stool'', hMin = 10, hMax = 35, sMin = 20, sMax = 75, lMin = 12, lMax = 45,
              color = ''#92400e''\<rparr>)]"

fun firstContent :: "(contentKey \<times> colorRange) list \<Rightarrow> real \<Rightarrow> real \<Rightarrow> real \<Rightarrow> contentKey option" where
  "firstContent [] h s l = None"
| "firstContent ((key, p) # ps) h s l =
     (if profileMatches p h s l then Some key else firstContent ps h s l)"

definition matchesContent :: "real \<Rightarrow> real \<Rightarrow> real \<Rightarrow> contentKey option" where
  "matchesContent r g b =
     (case rgbToHsl r g b of None \<Rightarrow> None | Some (h, s, l) \<Rightarrow> firstContent CONTENT_PROFILES h s l)"

definition matchesBlood_bowl :: "real \<Rightarrow> real \<Rightarrow> real \<Rightarrow> profile option" where
  "matchesBlood_bowl r g b = matchesBloodIn BLOOD_PROFILES_bowl r g b"

definition clusterDetections_bowl :: "pixel list \<Rightarrow> nat \<Rightarrow> nat \<Rightarrow> error + box list" where
  "clusterDetections_bowl pixels width height =
     clusterDetectionsIn BLOOD_PROFILES_bowl pixels width height"

text \<open>
  A classifier applied to channels read from the buffer: an \<open>undefined\<close> channel
  makes every HSL component NaN, and no range test holds.
\<close>

definition onChannels ::
  "(real \<Rightarrow> real \<Rightarrow> real \<Rightarrow> 'a option) \<Rightarrow> nat option \<Rightarrow> nat option \<Rightarrow> nat option \<Rightarrow> 'a option" where
  "onChannels f r g b =
     (case (r, g, b) of (Some r', Some g', Some b') \<Rightarrow> f (real r') (real g') (real b') | _ \<Rightarrow> None)"

record contentCounts =
  urine :: nat
  stool :: nat

record scan =
  bloodPixels :: "pixel list"
  counts :: contentCounts
  bowlSamples :: nat

text \<open>The body of the inner loop, for the pixel \<open>(x, y)\<close>.\<close>

definition scanPixel :: "nat list \<Rightarrow> nat \<Rightarrow> nat \<Rightarrow> nat \<Rightarrow> nat \<Rightarrow> scan \<Rightarrow> scan" where
  "scanPixel data width height y x st =
     (if \<not> isInBowlMask x y width height then st
      else
        let i = (y * width + x) * 4;
            r = byteAt data i; g = byteAt data (i + 1); b = byteAt data (i + 2);
            a = byteAt data (i + 3)
        in if (case a of None \<Rightarrow> False | Some a' \<Rightarrow> a' < 128) then st
           else
             let st1 = st\<lparr>bowlSamples := bowlSamples st + 1\<rparr>;
                 st2 = (case onChannels matchesContent r g b of
                          None \<Rightarrow> st1
                        | Some Urine \<Rightarrow> st1\<lparr>counts := (counts st1)\<lparr>urine := urine (counts st1) + 1\<rparr>\<rparr>
                        | Some Stool \<Rightarrow> st1\<lparr>counts := (counts st1)\<lparr>stool := stool (counts st1) + 1\<rparr>\<rparr>)
             in case onChannels matchesBlood_bowl r g b of
                  None \<Rightarrow> st2
                | Some prof \<Rightarrow> st2\<lparr>bloodPixels := bloodPixels st2 @ [(x, y, prof)]\<rparr>)"

definition scanImage :: "nat list \<Rightarrow> nat \<Rightarrow> nat \<Rightarrow> scan" where
  "scanImage data width height =
     forBy2 0 height (\<lambda>y. forBy2 0 width (scanPixel data width height y))
       \<lparr>bloodPixels = [], counts = \<lparr>urine = 0, stool = 0\<rparr>, bowlSamples = 0\<rparr>"

record contentSummary =
  urineRatio :: real
  stoolRatio :: real

record analysis =
  detections :: "box list"
  bloodPixelCount :: nat
  bloodRatio :: real
  sampleType :: string
  summary :: contentSummary

text \<open>
  \<open>analyzeImageData\<close> of the bowl-mask variant. The result fields \<open>bloodPixels\<close>
  and \<open>contentSummary\<close> are named \<open>bloodPixelCount\<close> and \<open>summary\<close> here.
  The quotients are guarded by \<open>bowlSamples ? ... : 0\<close>.
\<close>

definition analyzeImageData :: "nat list \<Rightarrow> nat \<Rightarrow> nat \<Rightarrow> error + analysis" where
  "analyzeImageData data width height =
     (let st = scanImage data width height;
          n = bowlSamples st;
          bloodRatio = (if n \<noteq> 0 then real (length (bloodPixels st)) / real n else 0);
          contentSummary =
            \<lparr>urineRatio = (if n \<noteq> 0 then real (urine (counts st)) / real n else 0),
             stoolRatio = (if n \<noteq> 0 then real (stool (counts st)) / real n else 0)\<rparr>;
          hasUrine = (urineRatio contentSummary \<ge> MIN_URINE_RATIO);
          hasStool = (stoolRatio contentSummary \<ge> MIN_STOOL_RATIO);
          sampleType = (if hasUrine \<and> hasStool then ''both''
                        else if hasUrine then ''urine''
                        else if hasStool then ''stool'' else ''unknown'')
      in if length (bloodPixels st) < MIN_BLOOD_PIXELS \<or> bloodRatio < MIN_BLOOD_RATIO
         then Inr \<lparr>detections = [], bloodPixelCount = length (bloodPixels st),
                   bloodRatio = bloodRatio, sampleType = sampleType, summary = contentSummary\<rparr>
         else
           (case clusterDetections_bowl (bloodPixels st) width height of
              Inl e \<Rightarrow> Inl e
            | Inr boxes \<Rightarrow>
               Inr \<lparr>detections = boxes, bloodPixelCount = length (bloodPixels st),
                    bloodRatio = bloodRatio, sampleType = sampleType, summary = contentSummary\<rparr>))"

text \<open>
  The scan in the words of the specification, for comparison: the sampled coordinates
  (every second row and column, row by row), the in-region samples (inside the mask
  and not transparent), and the classification of the pixel at a coordinate.
\<close>

definition spec_coords :: "nat \<Rightarrow> nat \<Rightarrow> (nat \<times> nat) list" where
  "spec_coords width height =
     concat (map (\<lambda>y. map (\<lambda>x. (x, y)) (filter (\<lambda>j. j mod 2 = 0) [0..<width]))
                 (filter (\<lambda>j. j mod 2 = 0) [0..<height]))"

definition spec_inRegion :: "nat list \<Rightarrow> nat \<Rightarrow> nat \<Rightarrow> nat \<times> nat \<Rightarrow> bool" where
  "spec_inRegion data width height c =
     (case c of (x, y) \<Rightarrow>
        isInBowlMask x y width height
        \<and> \<not> (case byteAt data ((y * width + x) * 4 + 3) of None \<Rightarrow> False | Some a \<Rightarrow> a < 128))"

definition spec_bloodAt :: "nat list \<Rightarrow> nat \<Rightarrow> nat \<times> nat \<Rightarrow> profile option" where
  "spec_bloodAt data width c =
     (case c of (x, y) \<Rightarrow>
        onChannels matchesBlood_bowl (byteAt data ((y * width + x) * 4))
          (byteAt data ((y * width + x) * 4 + 1)) (byteAt data ((y * width + x) * 4 + 2)))"

definition spec_contentAt :: "nat list \<Rightarrow> nat \<Rightarrow> nat \<times> nat \<Rightarrow> contentKey option" where
  "spec_contentAt data width c =
     (case c of (x, y) \<Rightarrow>
        onChannels matchesContent (byteAt data ((y * width + x) * 4))
          (byteAt data ((y * width + x) * 4 + 1)) (byteAt data ((y * width + x) * 4 + 2)))"

definition spec_regionSamples :: "nat list \<Rightarrow> nat \<Rightarrow> nat \<Rightarrow> (nat \<times> nat) list" where
  "spec_regionSamples data width height =
     filter (spec_inRegion data width height) (spec_coords width height)"

definition spec_bloodPixels :: "nat list \<Rightarrow> nat \<Rightarrow> nat \<Rightarrow> pixel list" where
  "spec_bloodPixels data width height =
     List.map_filter (\<lambda>c. map_option (\<lambda>p. (fst c, snd c, p)) (spec_bloodAt data width c))
       (spec_regionSamples data width height)"

definition spec_contentCount :: "nat list \<Rightarrow> nat \<Rightarrow> nat \<Rightarrow> contentKey \<Rightarrow> nat" where
  "spec_contentCount data width height key =
     length (filter (\<lambda>c. spec_contentAt data width c = Some key) (spec_regionSamples data width height))"

definition spec_ratio :: "nat \<Rightarrow> nat \<Rightarrow> real" where
  "spec_ratio m n = (if n = 0 then 0 else real m / real n)"

section \<open>Cells, adjacency and components\<close>

text \<open>The tally a label has in a tally list: the sum of the values stored under that key.\<close>

definition tallyOf :: "(string \<times> nat) list \<Rightarrow> string \<Rightarrow> nat" where
  "tallyOf t k = sum_list (map snd (filter (\<lambda>e. fst e = k) t))"

text \<open>A grid cell is active when its count reaches the threshold.\<close>

definition active :: "cell list \<Rightarrow> nat \<Rightarrow> bool" where
  "active grid i = (THRESHOLD \<le> count (grid ! i))"

text \<open>The bounds test of the neighbour loop, the index of a neighbour, and the in-bounds neighbours of a cell in the order the loop visits them.\<close>

definition inBounds :: "nat \<Rightarrow> nat \<Rightarrow> int \<times> int \<Rightarrow> bool" where
  "inBounds gridW gridH n = (case n of (nx, ny) \<Rightarrow>
      \<not> (nx < 0 \<or> ny < 0 \<or> nx \<ge> int gridW \<or> ny \<ge> int gridH))"

definition toIndex :: "nat \<Rightarrow> int \<times> int \<Rightarrow> nat" where
  "toIndex gridW n = (case n of (nx, ny) \<Rightarrow> nat (ny * int gridW + nx))"

definition nbrs :: "nat \<Rightarrow> nat \<Rightarrow> nat \<Rightarrow> nat list" where
  "nbrs gridW gridH ci =
     map (toIndex gridW)
       (filter (inBounds gridW gridH)
          [(int (ci mod gridW) - 1, int (ci div gridW)), (int (ci mod gridW) + 1, int (ci div gridW)),
           (int (ci mod gridW), int (ci div gridW) - 1), (int (ci mod gridW), int (ci div gridW) + 1)])"

text \<open>The neighbour step and the totals update of \<open>fillStep\<close>, separated.\<close>

definition visitIdx :: "cell list \<Rightarrow> nat \<Rightarrow> fill \<Rightarrow> fill" where
  "visitIdx grid ni st =
     (if ni \<notin> visited st \<and> active grid ni
      then st\<lparr>visited := insert ni (visited st), queue := queue st @ [ni]\<rparr> else st)"

definition absorb :: "cell list \<Rightarrow> nat \<Rightarrow> nat \<Rightarrow> fill \<Rightarrow> fill" where
  "absorb grid gridW ci st =
     st\<lparr>minX := min (minX st) (ci mod gridW), maxX := max (maxX st) (ci mod gridW),
        minY := min (minY st) (ci div gridW), maxY := max (maxY st) (ci div gridW),
        totalPixels := totalPixels st + count (grid ! ci),
        profileTotals := fold (\<lambda>(k, v). addTally k v) (profiles (grid ! ci)) (profileTotals st)\<rparr>"

text \<open>The neighbours a step adds to the queue.\<close>

fun newOnes :: "cell list \<Rightarrow> nat set \<Rightarrow> nat list \<Rightarrow> nat list" where
  "newOnes grid V [] = []"
| "newOnes grid V (n # ns) =
     (if n \<notin> V \<and> active grid n then n # newOnes grid (insert n V) ns else newOnes grid V ns)"

text \<open>The step relation of the flood fill: from a cell to an active in-bounds neighbour.\<close>

definition edge :: "cell list \<Rightarrow> nat \<Rightarrow> nat \<Rightarrow> (nat \<times> nat) set" where
  "edge grid gridW gridH = {(a, b). b \<in> set (nbrs gridW gridH a) \<and> active grid b}"

text \<open>Two grid cells \<open>(gx, gy)\<close> are 4-adjacent when they differ by one in exactly one coordinate.\<close>

definition adj4 :: "nat \<times> nat \<Rightarrow> nat \<times> nat \<Rightarrow> bool" where
  "adj4 c d = (case c of (x, y) \<Rightarrow> case d of (x', y') \<Rightarrow>
      (y = y' \<and> (x' + 1 = x \<or> x + 1 = x')) \<or> (x = x' \<and> (y' + 1 = y \<or> y + 1 = y')))"

text \<open>The coordinates \<open>(ci % gridW, floor(ci / gridW))\<close> of a cell index.\<close>

definition coords :: "nat \<Rightarrow> nat \<Rightarrow> nat \<times> nat" where
  "coords gridW i = (i mod gridW, i div gridW)"

text \<open>The cells a flood fill from \<open>s\<close> can reach, and a visited set that no active cell outside it touches.\<close>

definition component :: "cell list \<Rightarrow> nat \<Rightarrow> nat \<Rightarrow> nat \<Rightarrow> nat set" where
  "component grid gridW gridH s = (edge grid gridW gridH)\<^sup>* `` {s}"

definition sealed :: "cell list \<Rightarrow> nat \<Rightarrow> nat \<Rightarrow> nat set \<Rightarrow> bool" where
  "sealed grid gridW gridH V =
     (\<forall>c n. c < gridW * gridH \<longrightarrow> c \<notin> V \<longrightarrow> active grid c \<longrightarrow> (c, n) \<in> edge grid gridW gridH \<longrightarrow> n \<notin> V)"

text \<open>The state a flood fill starts from, and the code that turns its final state into a box.\<close>

definition initFill :: "nat \<Rightarrow> nat \<Rightarrow> nat \<Rightarrow> nat set \<Rightarrow> fill" where
  "initFill gx gy idx vis =
     \<lparr>queue = [idx], visited = insert idx vis, minX = gx, maxX = gx, minY = gy, maxY = gy,
      totalPixels = 0, profileTotals = []\<rparr>"

definition finishBox :: "profile list \<Rightarrow> fill \<Rightarrow> error + box" where
  "finishBox profs st =
     (case dominantEntry (profileTotals st) of
        None \<Rightarrow> Inl TypeError
      | Some dominant \<Rightarrow>
         (case find (\<lambda>p. label p = fst dominant) profs of
            None \<Rightarrow> Inl TypeError
          | Some prof \<Rightarrow>
             Inr \<lparr>box_x = minX st * GRID, box_y = minY st * GRID,
                  box_w = (maxX st - minX st + 1) * GRID,
                  box_h = (maxY st - minY st + 1) * GRID,
                  box_label = label prof, box_color = color prof,
                  box_severity = severity prof,
                  box_hatchStyle = hatchStyle prof,
                  box_pixels = totalPixels st\<rparr>))"

text \<open>The cell index of a pixel, its label, the pixels of a cell, and the tally of a pixel list.\<close>

definition cellIndex :: "nat \<Rightarrow> pixel \<Rightarrow> nat" where
  "cellIndex gridW px = (case px of (x, y, p) \<Rightarrow> (y div GRID) * gridW + x div GRID)"

definition pixelLabel :: "pixel \<Rightarrow> string" where
  "pixelLabel px = label (snd (snd px))"

definition cellPixels :: "nat \<Rightarrow> pixel list \<Rightarrow> nat \<Rightarrow> pixel list" where
  "cellPixels gridW pixels i = filter (\<lambda>px. cellIndex gridW px = i) pixels"

definition tallyPixels :: "pixel list \<Rightarrow> (string \<times> nat) list \<Rightarrow> (string \<times> nat) list" where
  "tallyPixels pxs t = fold (\<lambda>px. addTally (pixelLabel px) 1) pxs t"

text \<open>What the loops rely on in a grid: every tally sums to the count and every key is a profile label.\<close>

definition gridOK :: "profile list \<Rightarrow> cell list \<Rightarrow> nat \<Rightarrow> bool" where
  "gridOK profs grid N =
     (length grid = N \<and>
      (\<forall>i < N. sum_list (map snd (profiles (grid ! i))) = count (grid ! i)
               \<and> fst ` set (profiles (grid ! i)) \<subseteq> label ` set profs))"

text \<open>The pixel total and the tally of a label over a set of cells, and the box of such a set.\<close>

definition compTotal :: "cell list \<Rightarrow> nat set \<Rightarrow> nat" where
  "compTotal grid C = (\<Sum>c \<in> C. count (grid ! c))"

definition compTally :: "cell list \<Rightarrow> nat set \<Rightarrow> string \<Rightarrow> nat" where
  "compTally grid C k = (\<Sum>c \<in> C. tallyOf (profiles (grid ! c)) k)"

definition boxOfComp :: "profile list \<Rightarrow> cell list \<Rightarrow> nat \<Rightarrow> nat set \<Rightarrow> box \<Rightarrow> bool" where
  "boxOfComp profs grid gridW C b =
     (box_x b = Min ((\<lambda>c. c mod gridW) ` C) * GRID
      \<and> box_y b = Min ((\<lambda>c. c div gridW) ` C) * GRID
      \<and> box_w b = (Max ((\<lambda>c. c mod gridW) ` C) - Min ((\<lambda>c. c mod gridW) ` C) + 1) * GRID
      \<and> box_h b = (Max ((\<lambda>c. c div gridW) ` C) - Min ((\<lambda>c. c div gridW) ` C) + 1) * GRID
      \<and> box_pixels b = compTotal grid C
      \<and> (\<forall>k. compTally grid C k \<le> compTally grid C (box_label b))
      \<and> (\<exists>prof \<in> set profs. label prof = box_label b \<and> box_color b = color prof
            \<and> box_severity b = severity prof \<and> box_hatchStyle b = hatchStyle prof))"

text \<open>The loop variables \<open>(gy, gx)\<close> at a cell index.\<close>

definition cellAt :: "nat \<Rightarrow> nat \<Rightarrow> nat \<times> nat" where
  "cellAt gridW i = (i div gridW, i mod gridW)"

text \<open>The clustering in the words of the specification: the cell of a matched pixel, the count of a cell, the active cells, the connected component of a cell under 4-adjacency of active cells, and the pixel total and label tally of a group of cells.\<close>

definition spec_cellOf :: "pixel \<Rightarrow> nat \<times> nat" where
  "spec_cellOf px = (fst px div GRID, fst (snd px) div GRID)"

definition spec_cellCount :: "pixel list \<Rightarrow> nat \<times> nat \<Rightarrow> nat" where
  "spec_cellCount pixels c = length (filter (\<lambda>px. spec_cellOf px = c) pixels)"

definition spec_active :: "pixel list \<Rightarrow> nat \<times> nat \<Rightarrow> bool" where
  "spec_active pixels c = (THRESHOLD \<le> spec_cellCount pixels c)"

definition spec_component :: "pixel list \<Rightarrow> nat \<times> nat \<Rightarrow> (nat \<times> nat) set" where
  "spec_component pixels c = {(u, v). spec_active pixels v \<and> adj4 u v}\<^sup>* `` {c}"

definition spec_groupTotal :: "pixel list \<Rightarrow> (nat \<times> nat) set \<Rightarrow> nat" where
  "spec_groupTotal pixels C = length (filter (\<lambda>px. spec_cellOf px \<in> C) pixels)"

definition spec_groupTally :: "pixel list \<Rightarrow> (nat \<times> nat) set \<Rightarrow> string \<Rightarrow> nat" where
  "spec_groupTally pixels C k =
     length (filter (\<lambda>px. spec_cellOf px \<in> C \<and> pixelLabel px = k) pixels)"

text \<open>The matched pixels the pipeline produces: inside the image, with a label of the profile table.\<close>

definition pixelsOK :: "profile list \<Rightarrow> nat \<Rightarrow> nat \<Rightarrow> pixel list \<Rightarrow> bool" where
  "pixelsOK profs width height pixels =
     (\<forall>px \<in> set pixels. fst px < width \<and> fst (snd px) < height
          \<and> pixelLabel px \<in> label ` set profs)"

text \<open>\<open>Math.ceil(n / GRID)\<close>, and the empty cell.\<close>

definition gridSize :: "nat \<Rightarrow> nat" where
  "gridSize n = nat \<lceil>real n / real GRID\<rceil>"

definition emptyCell :: cell where
  "emptyCell = \<lparr>count = 0, profiles = []\<rparr>"

text \<open>The finding of a group of cells: its bounding box in pixels, its total, a label of highest tally, and the metadata of the profile with that label.\<close>

definition spec_finding :: "profile list \<Rightarrow> pixel list \<Rightarrow> (nat \<times> nat) set \<Rightarrow> box \<Rightarrow> bool" where
  "spec_finding profs pixels C b =
     (box_x b = Min (fst ` C) * GRID
      \<and> box_y b = Min (snd ` C) * GRID
      \<and> box_w b = (Max (fst ` C) - Min (fst ` C) + 1) * GRID
      \<and> box_h b = (Max (snd ` C) - Min (snd ` C) + 1) * GRID
      \<and> box_pixels b = spec_groupTotal pixels C
      \<and> (\<forall>k. spec_groupTally pixels C k \<le> spec_groupTally pixels C (box_label b))
      \<and> (\<exists>prof \<in> set profs. label prof = box_label b \<and> box_color b = color prof
            \<and> box_severity b = severity prof \<and> box_hatchStyle b = hatchStyle prof))"

text \<open>Two groups of matched pixels, three cells apart, for use as an example.\<close>

definition twoGroups :: "pixel list" where
  "twoGroups =
     [(0, 0, BLOOD_PROFILES ! 0), (2, 0, BLOOD_PROFILES ! 0), (4, 0, BLOOD_PROFILES ! 0),
      (6, 0, BLOOD_PROFILES ! 0), (0, 2, BLOOD_PROFILES ! 0), (2, 2, BLOOD_PROFILES ! 0),
      (4, 2, BLOOD_PROFILES ! 0), (6, 2, BLOOD_PROFILES ! 0),
      (36, 0, BLOOD_PROFILES ! 2), (38, 0, BLOOD_PROFILES ! 2), (40, 0, BLOOD_PROFILES ! 2),
      (42, 0, BLOOD_PROFILES ! 2), (36, 2, BLOOD_PROFILES ! 2), (38, 2, BLOOD_PROFILES ! 2),
      (40, 2, BLOOD_PROFILES ! 2), (42, 2, BLOOD_PROFILES ! 2)]"


section \<open>Counted loops as folds\<close>

lemma upt_split: "a \<le> b \<Longrightarrow> b \<le> c \<Longrightarrow> [a..<c] = [a..<b] @ [b..<c]"
  by (metis le_Suc_ex upt_add_eq_append)

lemma mod_skip:
  fixes i j k :: nat
  assumes "i < j" "j < i + k"
  shows "j mod k \<noteq> i mod k"
proof
  assume "j mod k = i mod k"
  then have "k dvd j - i" using assms(1) by (simp add: mod_eq_dvd_iff_nat)
  moreover have "0 < j - i" "j - i < k" using assms by simp_all
  ultimately show False by (meson dvd_imp_le not_less)
qed

lemma filter_mod_skip:
  assumes "0 < k"
  shows "filter (\<lambda>j. j mod k = i mod k) [Suc i..<n] = filter (\<lambda>j. j mod k = i mod k) [i + k..<n]"
proof (cases "i + k \<le> n")
  case True
  have "[Suc i..<n] = [Suc i..<i + k] @ [i + k..<n]"
    using True assms by (intro upt_split) simp_all
  moreover have "filter (\<lambda>j. j mod k = i mod k) [Suc i..<i + k] = []"
    using mod_skip[of i _ k] by (simp add: filter_empty_conv)
  ultimately show ?thesis by simp
next
  case False
  then have "filter (\<lambda>j. j mod k = i mod k) [Suc i..<n] = []"
    using mod_skip[of i _ k] by (simp add: filter_empty_conv)
  then show ?thesis using False by simp
qed



lemma forBy2_fold_gen:
  "forBy2 i n f s = fold f (filter (\<lambda>j. j mod 2 = i mod 2) [i..<n]) s"
proof (induction i n f s rule: forBy2.induct)
  case (1 i n f s)
  show ?case
  proof (cases "i < n")
    case True
    have "forBy2 i n f s = forBy2 (i + 2) n f (f i s)"
      using True by (subst forBy2.simps) simp
    also have "\<dots> = fold f (filter (\<lambda>j. j mod 2 = (i + 2) mod 2) [i + 2..<n]) (f i s)"
      using 1 True by simp
    also have "\<dots> = fold f (filter (\<lambda>j. j mod 2 = i mod 2) [Suc i..<n]) (f i s)"
      using filter_mod_skip[of 2 i n] by simp
    also have "\<dots> = fold f (filter (\<lambda>j. j mod 2 = i mod 2) [i..<n]) s"
      using True by (simp add: upt_conv_Cons)
    finally show ?thesis .
  next
    case False
    then show ?thesis by (subst forBy2.simps) simp
  qed
qed

lemma forBy2_fold:
  "forBy2 0 n f s = fold f (filter (\<lambda>j. j mod 2 = 0) [0..<n]) s"
  using forBy2_fold_gen[of 0 n f s] by simp













section \<open>Properties of the colour classifier\<close>













text \<open>
  C6. A profile whose hue range wraps (\<open>hMin > hMax\<close>) matches exactly when the hue
  is at least \<open>hMin\<close> or at most \<open>hMax\<close> (with saturation and lightness in
  range); the loop over a table holding only that profile returns it exactly then.
  With \<open>hMin = 340\<close> and \<open>hMax = 20\<close>, the hues 350 and 10 match and 180 does not.
\<close>

theorem hue_wrap_around:
  assumes "hMin p > hMax p"
  shows "(profileMatches p h s l \<longleftrightarrow>
            (h \<ge> hMin p \<or> h \<le> hMax p) \<and> sMin p \<le> s \<and> s \<le> sMax p \<and> lMin p \<le> l \<and> l \<le> lMax p)
         \<and> (firstMatch [p] h s l = Some p \<longleftrightarrow> profileMatches p h s l)
         \<and> (hMin p = 340 \<and> hMax p = 20 \<and> sMin p \<le> s \<and> s \<le> sMax p \<and> lMin p \<le> l \<and> l \<le> lMax p
              \<longrightarrow> profileMatches p 350 s l \<and> profileMatches p 10 s l \<and> \<not> profileMatches p 180 s l)"
  using assms by (auto simp: profileMatches_def hOk_def)

theorem hue_wrap_around_witness:
  "profileMatches \<lparr>label = ''Wrap'', hMin = 340, hMax = 20, sMin = 40, sMax = 100, lMin = 15, lMax = 40,
       color = ''#000000'', severity = ''look_into'', hatchStyle = None\<rparr> 350 50 30
   \<and> profileMatches \<lparr>label = ''Wrap'', hMin = 340, hMax = 20, sMin = 40, sMax = 100, lMin = 15, lMax = 40,
       color = ''#000000'', severity = ''look_into'', hatchStyle = None\<rparr> 10 50 30
   \<and> \<not> profileMatches \<lparr>label = ''Wrap'', hMin = 340, hMax = 20, sMin = 40, sMax = 100, lMin = 15, lMax = 40,
       color = ''#000000'', severity = ''look_into'', hatchStyle = None\<rparr> 180 50 30"
  using hue_wrap_around[of "\<lparr>label = ''Wrap'', hMin = 340, hMax = 20, sMin = 40, sMax = 100, lMin = 15, lMax = 40,
       color = ''#000000'', severity = ''look_into'', hatchStyle = None\<rparr>" 350 50 30]
  by simp



section \<open>Properties of the white-balance estimator\<close>











section \<open>Properties of the bowl-mask analysis\<close>

lemma fold_nested:
  "fold (\<lambda>y. fold (f y) xs) ys s
   = fold (\<lambda>c. f (snd c) (fst c)) (concat (map (\<lambda>y. map (\<lambda>x. (x, y)) xs) ys)) s"
proof (induction ys arbitrary: s)
  case Nil
  then show ?case by simp
next
  case (Cons y ys)
  have "fold (\<lambda>c. f (snd c) (fst c)) (map (\<lambda>x. (x, y)) xs) s = fold (f y) xs s"
    by (simp add: fold_map comp_def)
  then show ?case using Cons.IH by simp
qed

lemma scanImage_fold:
  "scanImage data width height =
     fold (\<lambda>c. scanPixel data width height (snd c) (fst c)) (spec_coords width height)
       \<lparr>bloodPixels = [], counts = \<lparr>urine = 0, stool = 0\<rparr>, bowlSamples = 0\<rparr>"
proof -
  have inner: "(\<lambda>y. forBy2 0 width (scanPixel data width height y))
      = (\<lambda>y. fold (scanPixel data width height y) (filter (\<lambda>j. j mod 2 = 0) [0..<width]))"
    by (rule ext, rule ext) (simp add: forBy2_fold)
  show ?thesis
    unfolding scanImage_def forBy2_fold inner spec_coords_def
    by (rule fold_nested)
qed

lemma scanPixel_spec:
  "scanPixel data width height y x st =
     (if spec_inRegion data width height (x, y)
      then \<lparr>bloodPixels = bloodPixels st @
               (case spec_bloodAt data width (x, y) of None \<Rightarrow> [] | Some p \<Rightarrow> [(x, y, p)]),
            counts = \<lparr>urine = urine (counts st)
                        + (if spec_contentAt data width (x, y) = Some Urine then 1 else 0),
                      stool = stool (counts st)
                        + (if spec_contentAt data width (x, y) = Some Stool then 1 else 0)\<rparr>,
            bowlSamples = bowlSamples st + 1\<rparr>
      else st)"
  by (simp add: scanPixel_def spec_inRegion_def spec_bloodAt_def spec_contentAt_def Let_def
      split: option.splits contentKey.splits)


lemma scan_fold_spec:
  "fold (\<lambda>c. scanPixel data width height (snd c) (fst c)) cs st =
     \<lparr>bloodPixels = bloodPixels st @
        List.map_filter (\<lambda>c. map_option (\<lambda>p. (fst c, snd c, p)) (spec_bloodAt data width c))
          (filter (spec_inRegion data width height) cs),
      counts = \<lparr>urine = urine (counts st)
                  + length (filter (\<lambda>c. spec_contentAt data width c = Some Urine)
                              (filter (spec_inRegion data width height) cs)),
                stool = stool (counts st)
                  + length (filter (\<lambda>c. spec_contentAt data width c = Some Stool)
                              (filter (spec_inRegion data width height) cs))\<rparr>,
      bowlSamples = bowlSamples st + length (filter (spec_inRegion data width height) cs)\<rparr>"
proof (induction cs arbitrary: st)
  case Nil
  then show ?case by (simp add: List.map_filter_simps)
next
  case (Cons c cs)
  obtain x y where c: "c = (x, y)" by (cases c)
  have step: "fold (\<lambda>c. scanPixel data width height (snd c) (fst c)) (c # cs) st
      = fold (\<lambda>c. scanPixel data width height (snd c) (fst c)) cs (scanPixel data width height y x st)"
    by (simp add: c)
  show ?case
  proof (cases "spec_inRegion data width height (x, y)")
    case True
    have sp: "scanPixel data width height y x st =
       \<lparr>bloodPixels = bloodPixels st @
               (case spec_bloodAt data width (x, y) of None \<Rightarrow> [] | Some p \<Rightarrow> [(x, y, p)]),
            counts = \<lparr>urine = urine (counts st)
                        + (if spec_contentAt data width (x, y) = Some Urine then 1 else 0),
                      stool = stool (counts st)
                        + (if spec_contentAt data width (x, y) = Some Stool then 1 else 0)\<rparr>,
            bowlSamples = bowlSamples st + 1\<rparr>"
      using True by (simp only: scanPixel_spec if_True)
    show ?thesis
      unfolding step Cons.IH sp
      using True
      by (cases "spec_bloodAt data width (x, y)") (simp_all add: c List.map_filter_simps)
  next
    case False
    have sp: "scanPixel data width height y x st = st"
      using False by (simp only: scanPixel_spec if_False)
    show ?thesis
      unfolding step Cons.IH sp using False by (simp add: c)
  qed
qed

lemma scanImage_spec:
  "scanImage data width height =
     \<lparr>bloodPixels = spec_bloodPixels data width height,
      counts = \<lparr>urine = spec_contentCount data width height Urine,
                stool = spec_contentCount data width height Stool\<rparr>,
      bowlSamples = length (spec_regionSamples data width height)\<rparr>"
  unfolding scanImage_fold scan_fold_spec
  by (simp add: spec_bloodPixels_def spec_contentCount_def spec_regionSamples_def)

lemma analyzeImageData_gate:
  assumes "length (spec_bloodPixels data width height) < 36
     \<or> spec_ratio (length (spec_bloodPixels data width height))
          (length (spec_regionSamples data width height)) < 0.002"
  shows "analyzeImageData data width height =
     Inr \<lparr>detections = [],
          bloodPixelCount = length (spec_bloodPixels data width height),
          bloodRatio = spec_ratio (length (spec_bloodPixels data width height))
                         (length (spec_regionSamples data width height)),
          sampleType =
            (if spec_ratio (spec_contentCount data width height Urine)
                   (length (spec_regionSamples data width height)) \<ge> 0.02
                \<and> spec_ratio (spec_contentCount data width height Stool)
                   (length (spec_regionSamples data width height)) \<ge> 0.02 then ''both''
             else if spec_ratio (spec_contentCount data width height Urine)
                   (length (spec_regionSamples data width height)) \<ge> 0.02 then ''urine''
             else if spec_ratio (spec_contentCount data width height Stool)
                   (length (spec_regionSamples data width height)) \<ge> 0.02 then ''stool''
             else ''unknown''),
          summary = \<lparr>urineRatio = spec_ratio (spec_contentCount data width height Urine)
                                   (length (spec_regionSamples data width height)),
                     stoolRatio = spec_ratio (spec_contentCount data width height Stool)
                                   (length (spec_regionSamples data width height))\<rparr>\<rparr>"
proof (cases "length (spec_regionSamples data width height) = 0")
  case True
  then show ?thesis
    by (simp add: analyzeImageData_def scanImage_spec Let_def spec_ratio_def MIN_BLOOD_PIXELS_def
      MIN_BLOOD_RATIO_def MIN_URINE_RATIO_def MIN_STOOL_RATIO_def)
next
  case False
  then show ?thesis
    using assms
    by (simp add: analyzeImageData_def scanImage_spec Let_def spec_ratio_def MIN_BLOOD_PIXELS_def
      MIN_BLOOD_RATIO_def MIN_URINE_RATIO_def MIN_STOOL_RATIO_def)
qed




lemma rgbToHsl_gray:
  "rgbToHsl v v v = Some (0, 0, v / 255 * 100)"
  by (simp add: rgbToHsl_def Let_def)

lemma gray_no_blood:
  assumes "26 \<le> v"
  shows "matchesBlood_bowl (real v) (real v) (real v) = None"
proof -
  have "10 < real v / 255 * 100" using assms by simp
  then show ?thesis
    by (simp add: matchesBlood_bowl_def matchesBloodIn_def rgbToHsl_gray BLOOD_PROFILES_bowl_def
        profileMatches_def)
qed

lemma gray_no_content:
  "matchesContent (real v) (real v) (real v) = None"
  by (simp add: matchesContent_def rgbToHsl_gray CONTENT_PROFILES_def profileMatches_def)

lemma onChannels_gray:
  assumes "f (real v) (real v) (real v) = None"
    "r = None \<or> r = Some v" "g = None \<or> g = Some v" "b = None \<or> b = Some v"
  shows "onChannels f r g b = None"
  using assms by (auto simp: onChannels_def)

lemma byteAt_gray:
  assumes "\<forall>i < length data. i mod 4 \<noteq> 3 \<longrightarrow> data ! i = v" "k < 3"
  shows "byteAt data (j * 4 + k) = None \<or> byteAt data (j * 4 + k) = Some v"
proof -
  have "(j * 4 + k) mod 4 = k" using assms(2) by simp
  then have "(j * 4 + k) mod 4 \<noteq> 3" using assms(2) by simp
  then show ?thesis using assms(1) by (simp add: byteAt_def)
qed

lemma map_filter_None: "(\<forall>x \<in> set xs. f x = None) \<Longrightarrow> List.map_filter f xs = []"
  by (induction xs) (simp_all add: List.map_filter_simps)



text \<open>
  C4. When no in-region pixel is sampled, and likewise for a uniform gray image whose
  channels all have one value of at least 26 (mid-gray is 128), both content ratios
  are 0, the sample type is \<open>unknown\<close> and there are no detections.
\<close>

theorem degenerate_unknown:
  assumes "spec_regionSamples data width height = []
     \<or> (26 \<le> v \<and> (\<forall>i < length data. i mod 4 \<noteq> 3 \<longrightarrow> data ! i = v))"
  shows "analyzeImageData data width height =
     Inr \<lparr>detections = [], bloodPixelCount = 0, bloodRatio = 0, sampleType = ''unknown'',
          summary = \<lparr>urineRatio = 0, stoolRatio = 0\<rparr>\<rparr>"
proof -
  have none: "spec_bloodPixels data width height = []
     \<and> spec_contentCount data width height Urine = 0
     \<and> spec_contentCount data width height Stool = 0"
    using assms
  proof
    assume "spec_regionSamples data width height = []"
    then show ?thesis
      by (simp add: spec_bloodPixels_def spec_contentCount_def List.map_filter_simps)
  next
    assume gray: "26 \<le> v \<and> (\<forall>i < length data. i mod 4 \<noteq> 3 \<longrightarrow> data ! i = v)"
    have ch: "\<And>j k. k < 3 \<Longrightarrow> byteAt data (j * 4 + k) = None \<or> byteAt data (j * 4 + k) = Some v"
      using byteAt_gray gray by blast
    have b: "spec_bloodAt data width c = None" for c
    proof -
      obtain x y where c: "c = (x, y)" by (cases c)
      show ?thesis
        unfolding c spec_bloodAt_def prod.case
        using ch[of 0 "y * width + x"] ch[of 1 "y * width + x"] ch[of 2 "y * width + x"]
        by (intro onChannels_gray[of _ v] gray_no_blood) (simp_all add: gray)
    qed
    have k: "spec_contentAt data width c = None" for c
    proof -
      obtain x y where c: "c = (x, y)" by (cases c)
      show ?thesis
        unfolding c spec_contentAt_def prod.case
        using ch[of 0 "y * width + x"] ch[of 1 "y * width + x"] ch[of 2 "y * width + x"]
        by (intro onChannels_gray[of _ v] gray_no_content) simp_all
    qed
    show ?thesis
      by (simp add: spec_bloodPixels_def spec_contentCount_def b k map_filter_None)
  qed
  have gate: "length (spec_bloodPixels data width height) < 36
     \<or> spec_ratio (length (spec_bloodPixels data width height))
          (length (spec_regionSamples data width height)) < 0.002"
    using none by simp
  show ?thesis
    unfolding analyzeImageData_gate[OF gate] using none by (simp add: spec_ratio_def)
qed

lemma gray_samples_example:
  "spec_regionSamples (concat (replicate 16 [128, 128, 128, 255])) 4 4 = [(2, 2)]"
  by code_simp

lemma empty_samples_example:
  "spec_regionSamples [] 0 0 = []"
  by code_simp

theorem degenerate_unknown_witness:
  "spec_regionSamples (concat (replicate 16 [128, 128, 128, 255])) 4 4 \<noteq> []
   \<and> analyzeImageData (concat (replicate 16 [128, 128, 128, 255])) 4 4 =
       Inr \<lparr>detections = [], bloodPixelCount = 0, bloodRatio = 0, sampleType = ''unknown'',
            summary = \<lparr>urineRatio = 0, stoolRatio = 0\<rparr>\<rparr>
   \<and> analyzeImageData [] 0 0 =
       Inr \<lparr>detections = [], bloodPixelCount = 0, bloodRatio = 0, sampleType = ''unknown'',
            summary = \<lparr>urineRatio = 0, stoolRatio = 0\<rparr>\<rparr>"
proof -
  have g: "\<forall>i < length (concat (replicate 16 [128, 128, 128, 255 :: nat])). i mod 4 \<noteq> 3
      \<longrightarrow> concat (replicate 16 [128, 128, 128, 255]) ! i = (128 :: nat)"
    by code_simp
  have 1: "analyzeImageData (concat (replicate 16 [128, 128, 128, 255])) 4 4 =
       Inr \<lparr>detections = [], bloodPixelCount = 0, bloodRatio = 0, sampleType = ''unknown'',
            summary = \<lparr>urineRatio = 0, stoolRatio = 0\<rparr>\<rparr>"
    using degenerate_unknown[of "concat (replicate 16 [128, 128, 128, 255])" 4 4 128] g by simp
  have 2: "analyzeImageData [] 0 0 =
       Inr \<lparr>detections = [], bloodPixelCount = 0, bloodRatio = 0, sampleType = ''unknown'',
            summary = \<lparr>urineRatio = 0, stoolRatio = 0\<rparr>\<rparr>"
    using degenerate_unknown[of "[]" 0 0 0] empty_samples_example by simp
  show ?thesis using 1 2 by (simp add: gray_samples_example)
qed











section \<open>Properties of the clustering\<close>

lemma tallyOf_addTally:
  "tallyOf (addTally k v t) k' = tallyOf t k' + (if k = k' then v else 0)"
  by (induction k v t rule: addTally.induct) (auto simp: tallyOf_def)

lemma sum_addTally:
  "sum_list (map snd (addTally k v t)) = sum_list (map snd t) + v"
  by (induction k v t rule: addTally.induct) auto

lemma keys_addTally:
  "fst ` set (addTally k v t) = insert k (fst ` set t)"
  by (induction k v t rule: addTally.induct) auto

lemma distinct_addTally:
  "distinct (map fst t) \<Longrightarrow> distinct (map fst (addTally k v t))"
proof (induction k v t rule: addTally.induct)
  case (1 k v)
  then show ?case by simp
next
  case (2 k v k' n kvs)
  show ?case
  proof (cases "k' = k")
    case True
    then show ?thesis using 2 by simp
  next
    case False
    have "k' \<notin> fst ` set (addTally k v kvs)"
      using 2(2) False by (simp add: keys_addTally)
    then show ?thesis using 2 False by simp
  qed
qed

lemma tallyOf_distinct:
  assumes "distinct (map fst t)" "(k, v) \<in> set t"
  shows "tallyOf t k = v"
  using assms by (induction t) (auto simp: tallyOf_def filter_empty_conv rev_image_eqI)

lemma tallyOf_absent:
  assumes "k \<notin> fst ` set t"
  shows "tallyOf t k = 0"
  using assms by (induction t) (auto simp: tallyOf_def)

lemma hd_insort_key:
  "hd (insort_key f x ys) = (if ys = [] \<or> f x \<le> f (hd ys) then x else hd ys)"
  by (cases ys) auto

lemma insort_key_ne: "insort_key f x ys \<noteq> []"
  by (cases ys) auto

lemma sort_key_ne: "xs \<noteq> [] \<Longrightarrow> sort_key f xs \<noteq> []"
  by (cases xs) (auto simp: insort_key_ne)

lemma hd_sort_key_first_min:
  fixes f :: "'a \<Rightarrow> int"
  assumes "xs \<noteq> []"
  shows "\<exists>i < length xs. hd (sort_key f xs) = xs ! i
           \<and> (\<forall>j < length xs. f (xs ! i) \<le> f (xs ! j))
           \<and> (\<forall>j < i. f (xs ! i) < f (xs ! j))"
  using assms
proof (induction xs)
  case Nil
  then show ?case by simp
next
  case (Cons x xs)
  show ?case
  proof (cases "xs = []")
    case True
    then show ?thesis by simp
  next
    case False
    then obtain i where i: "i < length xs" "hd (sort_key f xs) = xs ! i"
      "\<forall>j < length xs. f (xs ! i) \<le> f (xs ! j)" "\<forall>j < i. f (xs ! i) < f (xs ! j)"
      using Cons.IH by blast
    have ne: "sort_key f xs \<noteq> []" using False by (rule sort_key_ne)
    have hd: "hd (sort_key f (x # xs)) = (if f x \<le> f (xs ! i) then x else xs ! i)"
      using ne i(2) by (simp add: hd_insort_key)
    show ?thesis
    proof (cases "f x \<le> f (xs ! i)")
      case True
      have "\<forall>j < length (x # xs). f ((x # xs) ! 0) \<le> f ((x # xs) ! j)"
      proof (intro allI impI)
        fix j assume "j < length (x # xs)"
        then show "f ((x # xs) ! 0) \<le> f ((x # xs) ! j)"
          using True i(3) by (cases j) (auto intro: order_trans)
      qed
      then show ?thesis using hd True by (intro exI[of _ 0]) simp
    next
      case F: False
      have a: "\<forall>j < length (x # xs). f ((x # xs) ! Suc i) \<le> f ((x # xs) ! j)"
      proof (intro allI impI)
        fix j assume "j < length (x # xs)"
        then show "f ((x # xs) ! Suc i) \<le> f ((x # xs) ! j)"
          using F i(3) by (cases j) auto
      qed
      have b: "\<forall>j < Suc i. f ((x # xs) ! Suc i) < f ((x # xs) ! j)"
      proof (intro allI impI)
        fix j assume "j < Suc i"
        then show "f ((x # xs) ! Suc i) < f ((x # xs) ! j)"
          using F i(4) by (cases j) auto
      qed
      show ?thesis using hd F a b i(1) by (intro exI[of _ "Suc i"]) simp
    qed
  qed
qed

lemma dominantEntry_first_max:
  assumes "dominantEntry t = Some e"
  shows "\<exists>i < length t. e = t ! i \<and> (\<forall>j < length t. snd (t ! j) \<le> snd (t ! i))
           \<and> (\<forall>j < i. snd (t ! j) < snd (t ! i))"
proof -
  have ne: "t \<noteq> []" using assms by (auto simp: dominantEntry_def)
  then have "sort_key (\<lambda>(k, v). - int v) t \<noteq> []" by (rule sort_key_ne)
  then have e: "e = hd (sort_key (\<lambda>(k, v). - int v) t)"
    using assms by (auto simp: dominantEntry_def split: list.splits)
  obtain i where i: "i < length t" "hd (sort_key (\<lambda>(k, v). - int v) t) = t ! i"
    "\<forall>j < length t. (\<lambda>(k, v). - int v) (t ! i) \<le> (\<lambda>(k, v). - int v) (t ! j)"
    "\<forall>j < i. (\<lambda>(k, v). - int v) (t ! i) < (\<lambda>(k, v). - int v) (t ! j)"
    using hd_sort_key_first_min[OF ne, of "\<lambda>(k, v). - int v"] by blast
  have "\<forall>j < length t. snd (t ! j) \<le> snd (t ! i)"
    using i(3) by (auto simp: case_prod_beta)
  moreover have "\<forall>j < i. snd (t ! j) < snd (t ! i)"
    using i(4) by (auto simp: case_prod_beta)
  ultimately show ?thesis using e i(1,2) by auto
qed

lemma dominantEntry_Some: "t \<noteq> [] \<Longrightarrow> \<exists>e. dominantEntry t = Some e"
  using sort_key_ne[of t "\<lambda>(k, v). - int v"] by (auto simp: dominantEntry_def split: list.splits)

lemma visitNeighbour_visitIdx:
  "visitNeighbour grid gridW gridH n st =
     (if inBounds gridW gridH n then visitIdx grid (toIndex gridW n) st else st)"
  by (cases n) (simp add: visitNeighbour_def inBounds_def toIndex_def visitIdx_def active_def Let_def)

lemma fold_visitNeighbour_visitIdx:
  "fold (visitNeighbour grid gridW gridH) ns st
     = fold (visitIdx grid) (map (toIndex gridW) (filter (inBounds gridW gridH) ns)) st"
  by (induction ns arbitrary: st) (simp_all add: visitNeighbour_visitIdx)

lemma fillStep_absorb:
  "fillStep grid gridW gridH ci st = fold (visitIdx grid) (nbrs gridW gridH ci) (absorb grid gridW ci st)"
  unfolding fillStep_def Let_def fold_visitNeighbour_visitIdx nbrs_def absorb_def ..

lemma fold_visitIdx:
  "fold (visitIdx grid) ns st =
     st\<lparr>visited := visited st \<union> set (newOnes grid (visited st) ns),
        queue := queue st @ newOnes grid (visited st) ns\<rparr>"
proof (induction ns arbitrary: st)
  case Nil
  then show ?case by simp
next
  case (Cons n ns)
  have step: "fold (visitIdx grid) (n # ns) st = fold (visitIdx grid) ns (visitIdx grid n st)"
    by simp
  show ?case
  proof (cases "n \<notin> visited st \<and> active grid n")
    case True
    have v: "visitIdx grid n st = st\<lparr>visited := insert n (visited st), queue := queue st @ [n]\<rparr>"
      using True by (simp add: visitIdx_def)
    show ?thesis unfolding step Cons.IH unfolding v using True by simp
  next
    case False
    have v: "visitIdx grid n st = st" using False by (auto simp: visitIdx_def)
    show ?thesis unfolding step Cons.IH unfolding v using False by auto
  qed
qed

lemma newOnes_set:
  "set (newOnes grid V ns) = {n \<in> set ns. n \<notin> V \<and> active grid n}"
  by (induction ns arbitrary: V) auto

lemma newOnes_distinct: "distinct (newOnes grid V ns)"
  by (induction ns arbitrary: V) (auto simp: newOnes_set)

lemma absorb_fields [simp]:
  "queue (absorb grid gridW ci st) = queue st"
  "visited (absorb grid gridW ci st) = visited st"
  by (simp_all add: absorb_def)

lemma absorb_update:
  "absorb grid gridW ci (st\<lparr>queue := q, visited := v\<rparr>) = (absorb grid gridW ci st)\<lparr>queue := q, visited := v\<rparr>"
  by (simp add: absorb_def)

lemma fold_absorb_fields [simp]:
  "queue (fold (absorb grid gridW) cs st) = queue st"
  "visited (fold (absorb grid gridW) cs st) = visited st"
  by (induction cs arbitrary: st) simp_all

lemma fold_absorb_update:
  "fold (absorb grid gridW) cs (st\<lparr>queue := q, visited := v\<rparr>)
     = (fold (absorb grid gridW) cs st)\<lparr>queue := q, visited := v\<rparr>"
  by (induction cs arbitrary: st) (simp_all add: absorb_update)

lemma floodFill_spec:
  "\<exists>more. floodFill grid gridW gridH st
        = (fold (absorb grid gridW) (queue st @ more) st)\<lparr>queue := [], visited := visited st \<union> set more\<rparr>
     \<and> distinct more \<and> set more \<inter> visited st = {}
     \<and> (\<forall>c \<in> set more. \<exists>q \<in> set (queue st). (q, c) \<in> (edge grid gridW gridH)\<^sup>+)
     \<and> (\<forall>c \<in> set (queue st @ more). \<forall>n. (c, n) \<in> edge grid gridW gridH \<longrightarrow> n \<in> visited st \<union> set more)"
proof (induction grid gridW gridH st rule: floodFill.induct)
  case (1 grid gridW gridH st)
  show ?case
  proof (cases "queue st")
    case Nil
    have "floodFill grid gridW gridH st = st" by (subst floodFill.simps) (simp add: Nil)
    then show ?thesis using Nil by (intro exI[of _ "[]"]) simp
  next
    case (Cons ci rest)
    define new where "new = newOnes grid (visited st) (nbrs gridW gridH ci)"
    define st' where "st' = fillStep grid gridW gridH ci (st\<lparr>queue := rest\<rparr>)"
    have st'_eq: "st' = (absorb grid gridW ci st)\<lparr>queue := rest @ new, visited := visited st \<union> set new\<rparr>"
      unfolding st'_def fillStep_absorb fold_visitIdx new_def
      by (simp add: absorb_def)
    have q': "queue st' = rest @ new" and v': "visited st' = visited st \<union> set new"
      by (simp_all add: st'_eq)
    have ff: "floodFill grid gridW gridH st = floodFill grid gridW gridH st'"
      by (subst floodFill.simps) (simp add: Cons st'_def)
    obtain more' where m:
      "floodFill grid gridW gridH st'
        = (fold (absorb grid gridW) (queue st' @ more') st')\<lparr>queue := [], visited := visited st' \<union> set more'\<rparr>"
      "distinct more'" "set more' \<inter> visited st' = {}"
      "\<forall>c \<in> set more'. \<exists>q \<in> set (queue st'). (q, c) \<in> (edge grid gridW gridH)\<^sup>+"
      "\<forall>c \<in> set (queue st' @ more'). \<forall>n. (c, n) \<in> edge grid gridW gridH \<longrightarrow> n \<in> visited st' \<union> set more'"
      using "1.IH"[OF Cons, folded st'_def] by blast
    define more where "more = new @ more'"
    have new_set: "set new = {n \<in> set (nbrs gridW gridH ci). n \<notin> visited st \<and> active grid n}"
      by (simp add: new_def newOnes_set)
    have new_dist: "distinct new" by (simp add: new_def newOnes_distinct)
    have a: "floodFill grid gridW gridH st
        = (fold (absorb grid gridW) (queue st @ more) st)\<lparr>queue := [], visited := visited st \<union> set more\<rparr>"
    proof -
      have "fold (absorb grid gridW) (queue st' @ more') st'
          = (fold (absorb grid gridW) (rest @ new @ more') (absorb grid gridW ci st))
              \<lparr>queue := rest @ new, visited := visited st \<union> set new\<rparr>"
        unfolding q' unfolding st'_eq by (simp add: fold_absorb_update)
      then show ?thesis
        unfolding ff m(1) v' more_def Cons by (simp add: Un_assoc)
    qed
    have b: "distinct more"
      using new_dist m(2) m(3) by (auto simp: more_def v')
    have c: "set more \<inter> visited st = {}"
      using m(3) new_set by (auto simp: more_def v')
    have d: "\<forall>c \<in> set more. \<exists>q \<in> set (queue st). (q, c) \<in> (edge grid gridW gridH)\<^sup>+"
    proof
      fix c assume "c \<in> set more"
      then consider "c \<in> set new" | "c \<in> set more'" by (auto simp: more_def)
      then show "\<exists>q \<in> set (queue st). (q, c) \<in> (edge grid gridW gridH)\<^sup>+"
      proof cases
        case 1
        then have "(ci, c) \<in> edge grid gridW gridH" by (simp add: new_set edge_def)
        then show ?thesis using Cons by auto
      next
        case 2
        then obtain q where q: "q \<in> set (rest @ new)" "(q, c) \<in> (edge grid gridW gridH)\<^sup>+"
          using m(4) q' by auto
        show ?thesis
        proof (cases "q \<in> set rest")
          case True
          then show ?thesis using q(2) Cons by auto
        next
          case False
          then have "q \<in> set new" using q(1) by simp
          then have "(ci, q) \<in> edge grid gridW gridH" by (simp add: new_set edge_def)
          then have "(ci, c) \<in> (edge grid gridW gridH)\<^sup>+" using q(2) by (rule trancl_into_trancl2)
          then show ?thesis using Cons by auto
        qed
      qed
    qed
    have e: "\<forall>c \<in> set (queue st @ more). \<forall>n. (c, n) \<in> edge grid gridW gridH \<longrightarrow> n \<in> visited st \<union> set more"
    proof (intro ballI allI impI)
      fix c n assume c: "c \<in> set (queue st @ more)" and n: "(c, n) \<in> edge grid gridW gridH"
      show "n \<in> visited st \<union> set more"
      proof (cases "c = ci")
        case True
        then have "n \<in> set (nbrs gridW gridH ci)" "active grid n" using n by (simp_all add: edge_def)
        then have "n \<in> visited st \<or> n \<in> set new" by (auto simp: new_set)
        then show ?thesis by (auto simp: more_def)
      next
        case False
        then have "c \<in> set (queue st' @ more')" using c Cons by (auto simp: q' more_def)
        then have "n \<in> visited st' \<union> set more'" using m(5) n by blast
        then show ?thesis by (auto simp: v' more_def)
      qed
    qed
    show ?thesis using a b c d e by blast
  qed
qed

lemma adj4_sym: "adj4 c d \<Longrightarrow> adj4 d c"
  by (cases c, cases d) (auto simp: adj4_def)

lemma index_coords:
  fixes x y gridW :: nat
  assumes "x < gridW"
  shows "(y * gridW + x) mod gridW = x" "(y * gridW + x) div gridW = y"
  using assms by simp_all

lemma index_bound:
  fixes x y gridW gridH :: nat
  assumes "x < gridW" "y < gridH"
  shows "y * gridW + x < gridW * gridH"
proof -
  have "y * gridW + x < y * gridW + gridW" using assms(1) by simp
  also have "\<dots> = (y + 1) * gridW" by simp
  also have "\<dots> \<le> gridH * gridW" using assms(2) by (intro mult_le_mono1) simp
  finally show ?thesis by (simp add: mult.commute)
qed

lemma coords_bound:
  fixes i gridW gridH :: nat
  assumes "i < gridW * gridH"
  shows "i mod gridW < gridW" "i div gridW < gridH"
proof -
  have "0 < gridW" using assms by (cases gridW) simp_all
  then show "i mod gridW < gridW" by simp
  show "i div gridW < gridH" using assms by (simp add: less_mult_imp_div_less mult.commute)
qed

lemma toIndex_inBounds:
  assumes "inBounds gridW gridH (nx, ny)"
  shows "\<exists>x y. nx = int x \<and> ny = int y \<and> x < gridW \<and> y < gridH
           \<and> toIndex gridW (nx, ny) = y * gridW + x"
proof -
  have b: "0 \<le> nx" "0 \<le> ny" "nx < int gridW" "ny < int gridH"
    using assms by (simp_all add: inBounds_def)
  define x where "x = nat nx"
  define y where "y = nat ny"
  have "nx = int x" "ny = int y" "x < gridW" "y < gridH" using b by (simp_all add: x_def y_def)
  moreover have "toIndex gridW (nx, ny) = y * gridW + x"
    unfolding toIndex_def prod.case \<open>nx = int x\<close> \<open>ny = int y\<close>
    by (metis nat_int of_nat_add of_nat_mult)
  ultimately show ?thesis by blast
qed

lemma nbrs_iff:
  "b \<in> set (nbrs gridW gridH a) \<longleftrightarrow> b < gridW * gridH \<and> adj4 (coords gridW a) (coords gridW b)"
proof
  assume "b \<in> set (nbrs gridW gridH a)"
  then have "b \<in> toIndex gridW ` {n \<in> set [(int (a mod gridW) - 1, int (a div gridW)),
           (int (a mod gridW) + 1, int (a div gridW)),
           (int (a mod gridW), int (a div gridW) - 1), (int (a mod gridW), int (a div gridW) + 1)].
           inBounds gridW gridH n}"
    unfolding nbrs_def by (simp only: set_map set_filter)
  then obtain n where n0: "n \<in> set [(int (a mod gridW) - 1, int (a div gridW)),
           (int (a mod gridW) + 1, int (a div gridW)),
           (int (a mod gridW), int (a div gridW) - 1), (int (a mod gridW), int (a div gridW) + 1)]"
    and n12: "inBounds gridW gridH n" "b = toIndex gridW n"
    by blast
  have n: "inBounds gridW gridH n" "b = toIndex gridW n"
    "n = (int (a mod gridW) - 1, int (a div gridW)) \<or> n = (int (a mod gridW) + 1, int (a div gridW))
     \<or> n = (int (a mod gridW), int (a div gridW) - 1) \<or> n = (int (a mod gridW), int (a div gridW) + 1)"
    using n0 n12 by simp_all
  obtain nx ny where nn: "n = (nx, ny)" by (cases n)
  obtain x y where xy: "nx = int x" "ny = int y" "x < gridW" "y < gridH" "b = y * gridW + x"
    using toIndex_inBounds[of gridW gridH nx ny] n(1,2) nn by auto
  have cb: "coords gridW b = (x, y)"
    using index_coords[OF xy(3), of y] by (simp add: coords_def xy(5))
  have ca: "coords gridW a = (a mod gridW, a div gridW)" by (simp add: coords_def)
  have "b < gridW * gridH" unfolding xy(5) using xy(3,4) by (rule index_bound)
  moreover have "adj4 (a mod gridW, a div gridW) (x, y)"
    using n(3) unfolding nn xy(1,2) by (auto simp: adj4_def)
  ultimately show "b < gridW * gridH \<and> adj4 (coords gridW a) (coords gridW b)"
    unfolding cb ca by blast
next
  assume r: "b < gridW * gridH \<and> adj4 (coords gridW a) (coords gridW b)"
  define x where "x = b mod gridW"
  define y where "y = b div gridW"
  have bN: "b < gridW * gridH" using r by blast
  have xb: "x < gridW" and yb: "y < gridH"
    unfolding x_def y_def by (rule coords_bound[OF bN])+
  have bi: "b = y * gridW + x" by (simp add: x_def y_def)
  have inb: "inBounds gridW gridH (int x, int y)" using xb yb by (simp add: inBounds_def)
  have ti: "toIndex gridW (int x, int y) = b"
    unfolding toIndex_def prod.case bi by (metis nat_int of_nat_add of_nat_mult)
  have "adj4 (a mod gridW, a div gridW) (x, y)" using r by (simp add: coords_def x_def y_def)
  then have "(int x, int y) = (int (a mod gridW) - 1, int (a div gridW))
     \<or> (int x, int y) = (int (a mod gridW) + 1, int (a div gridW))
     \<or> (int x, int y) = (int (a mod gridW), int (a div gridW) - 1)
     \<or> (int x, int y) = (int (a mod gridW), int (a div gridW) + 1)"
    by (auto simp: adj4_def)
  then have "(int x, int y) \<in> set [(int (a mod gridW) - 1, int (a div gridW)),
           (int (a mod gridW) + 1, int (a div gridW)),
           (int (a mod gridW), int (a div gridW) - 1), (int (a mod gridW), int (a div gridW) + 1)]"
    by simp
  then have "(int x, int y) \<in> {n \<in> set [(int (a mod gridW) - 1, int (a div gridW)),
           (int (a mod gridW) + 1, int (a div gridW)),
           (int (a mod gridW), int (a div gridW) - 1), (int (a mod gridW), int (a div gridW) + 1)].
           inBounds gridW gridH n}"
    using inb by blast
  then have "toIndex gridW (int x, int y) \<in> set (nbrs gridW gridH a)"
    unfolding nbrs_def by (simp only: set_map set_filter) (rule imageI)
  then show "b \<in> set (nbrs gridW gridH a)" by (simp add: ti)
qed

lemma edge_iff:
  "(a, b) \<in> edge grid gridW gridH \<longleftrightarrow>
     b < gridW * gridH \<and> adj4 (coords gridW a) (coords gridW b) \<and> active grid b"
  by (auto simp: edge_def nbrs_iff)

lemma edge_sym:
  assumes "(a, b) \<in> edge grid gridW gridH" "a < gridW * gridH" "active grid a"
  shows "(b, a) \<in> edge grid gridW gridH"
  using assms by (auto simp: edge_iff dest: adj4_sym)

lemma scanCell_unfold:
  "scanCell profs grid gridW gridH (gy, gx) (vis, boxes) =
     (if gy * gridW + gx \<in> vis \<or> \<not> active grid (gy * gridW + gx) then Inr (vis, boxes)
      else if totalPixels (floodFill grid gridW gridH (initFill gx gy (gy * gridW + gx) vis)) < 8
      then Inr (visited (floodFill grid gridW gridH (initFill gx gy (gy * gridW + gx) vis)), boxes)
      else (case finishBox profs (floodFill grid gridW gridH (initFill gx gy (gy * gridW + gx) vis)) of
              Inl e \<Rightarrow> Inl e
            | Inr b \<Rightarrow> Inr (visited (floodFill grid gridW gridH (initFill gx gy (gy * gridW + gx) vis)),
                              boxes @ [b])))"
  by (simp add: scanCell_def Let_def active_def initFill_def finishBox_def not_le
      split: option.splits)

lemma edge_target:
  assumes "(a, b) \<in> (edge grid gridW gridH)\<^sup>+"
  shows "b < gridW * gridH \<and> active grid b"
proof -
  obtain z where "(z, b) \<in> edge grid gridW gridH" using assms by (meson tranclD2)
  then show ?thesis by (simp add: edge_iff)
qed

lemma floodFill_component:
  assumes s: "s < gridW * gridH" "active grid s" "s \<notin> V" and sealed: "sealed grid gridW gridH V"
  shows "\<exists>more. floodFill grid gridW gridH (initFill gx gy s V)
           = (fold (absorb grid gridW) (s # more) (initFill gx gy s V))
               \<lparr>queue := [], visited := V \<union> component grid gridW gridH s\<rparr>
         \<and> distinct (s # more) \<and> set (s # more) = component grid gridW gridH s
         \<and> component grid gridW gridH s \<inter> V = {}"
proof -
  let ?E = "edge grid gridW gridH"
  let ?st = "initFill gx gy s V"
  have q: "queue ?st = [s]" and v: "visited ?st = insert s V" by (simp_all add: initFill_def)
  obtain more where m:
    "floodFill grid gridW gridH ?st
        = (fold (absorb grid gridW) (queue ?st @ more) ?st)\<lparr>queue := [], visited := visited ?st \<union> set more\<rparr>"
    "distinct more" "set more \<inter> visited ?st = {}"
    "\<forall>c \<in> set more. \<exists>q \<in> set (queue ?st). (q, c) \<in> ?E\<^sup>+"
    "\<forall>c \<in> set (queue ?st @ more). \<forall>n. (c, n) \<in> ?E \<longrightarrow> n \<in> visited ?st \<union> set more"
    using floodFill_spec[of grid gridW gridH ?st] by blast
  have reach: "\<forall>c \<in> set more. (s, c) \<in> ?E\<^sup>+" using m(4) by (simp add: q)
  have disj: "set (s # more) \<inter> V = {}" using m(3) s(3) by (auto simp: v)
  have act: "\<forall>c \<in> set (s # more). c < gridW * gridH \<and> active grid c"
    using s(1,2) reach edge_target by auto
  have closed: "\<forall>c \<in> set (s # more). \<forall>n. (c, n) \<in> ?E \<longrightarrow> n \<in> set (s # more)"
  proof (intro ballI allI impI)
    fix c n assume c: "c \<in> set (s # more)" and e: "(c, n) \<in> ?E"
    have m5: "\<forall>c \<in> set (s # more). \<forall>n. (c, n) \<in> ?E \<longrightarrow> n \<in> insert s V \<union> set more"
      using m(5) unfolding q v by simp
    have "n \<in> insert s V \<union> set more" using m5 c e by blast
    moreover have "n \<notin> V"
      using sealed act c disj e unfolding sealed_def by blast
    ultimately show "n \<in> set (s # more)" by auto
  qed
  have sub1: "set (s # more) \<subseteq> component grid gridW gridH s"
    using reach by (auto simp: component_def)
  have sub2: "component grid gridW gridH s \<subseteq> set (s # more)"
  proof
    fix c assume "c \<in> component grid gridW gridH s"
    then have "(s, c) \<in> ?E\<^sup>*" by (simp add: component_def)
    then show "c \<in> set (s # more)"
    proof (induction rule: rtrancl_induct)
      case base
      then show ?case by simp
    next
      case (step y z)
      then show ?case using closed by blast
    qed
  qed
  have eq: "set (s # more) = component grid gridW gridH s" using sub1 sub2 by blast
  have "insert s V \<union> set more = V \<union> component grid gridW gridH s"
    using eq by auto
  then have "floodFill grid gridW gridH ?st
           = (fold (absorb grid gridW) (s # more) ?st)
               \<lparr>queue := [], visited := V \<union> component grid gridW gridH s\<rparr>"
    using m(1) by (simp add: q v)
  moreover have "distinct (s # more)" using m(2,3) by (auto simp: v)
  ultimately show ?thesis using eq disj by auto
qed

lemma sealed_extend:
  assumes "sealed grid gridW gridH V"
  shows "sealed grid gridW gridH (V \<union> component grid gridW gridH s)"
  unfolding sealed_def
proof (intro allI impI)
  fix c n
  assume c: "c < gridW * gridH" "c \<notin> V \<union> component grid gridW gridH s" "active grid c"
    and e: "(c, n) \<in> edge grid gridW gridH"
  have "n \<notin> V" using assms c e unfolding sealed_def by blast
  moreover have "n \<notin> component grid gridW gridH s"
  proof
    assume "n \<in> component grid gridW gridH s"
    then have "(s, n) \<in> (edge grid gridW gridH)\<^sup>*" by (simp add: component_def)
    moreover have "(n, c) \<in> edge grid gridW gridH" using e c(1,3) by (rule edge_sym)
    ultimately have "(s, c) \<in> (edge grid gridW gridH)\<^sup>*" by (rule rtrancl_into_rtrancl)
    then show False using c(2) by (simp add: component_def)
  qed
  ultimately show "n \<notin> V \<union> component grid gridW gridH s" by simp
qed

lemma sealed_empty: "sealed grid gridW gridH {}"
  by (simp add: sealed_def)

lemma tallyOf_Cons: "tallyOf ((k', v) # t) k = (if k' = k then v else 0) + tallyOf t k"
  by (simp add: tallyOf_def)

lemma fold_addTally_tally:
  "tallyOf (fold (\<lambda>(k, v). addTally k v) ps t) k = tallyOf t k + tallyOf ps k"
proof (induction ps arbitrary: t)
  case Nil
  then show ?case by (simp add: tallyOf_def)
next
  case (Cons p ps)
  obtain k' v where p: "p = (k', v)" by (cases p)
  show ?case unfolding p by (simp add: Cons.IH tallyOf_addTally tallyOf_Cons)
qed

lemma fold_addTally_sum:
  "sum_list (map snd (fold (\<lambda>(k, v). addTally k v) ps t)) = sum_list (map snd t) + sum_list (map snd ps)"
proof (induction ps arbitrary: t)
  case Nil
  then show ?case by simp
next
  case (Cons p ps)
  obtain k' v where p: "p = (k', v)" by (cases p)
  show ?case unfolding p by (simp add: Cons.IH sum_addTally)
qed

lemma fold_addTally_keys:
  "fst ` set (fold (\<lambda>(k, v). addTally k v) ps t) = fst ` set t \<union> fst ` set ps"
proof (induction ps arbitrary: t)
  case Nil
  then show ?case by simp
next
  case (Cons p ps)
  obtain k' v where p: "p = (k', v)" by (cases p)
  show ?case unfolding p by (simp add: Cons.IH keys_addTally)
qed

lemma fold_addTally_distinct:
  "distinct (map fst t) \<Longrightarrow> distinct (map fst (fold (\<lambda>(k, v). addTally k v) ps t))"
proof (induction ps arbitrary: t)
  case Nil
  then show ?case by simp
next
  case (Cons p ps)
  obtain k' v where p: "p = (k', v)" by (cases p)
  show ?case unfolding p using Cons.prems by (simp add: Cons.IH distinct_addTally)
qed

lemma absorb_simps [simp]:
  "totalPixels (absorb grid gridW c st) = totalPixels st + count (grid ! c)"
  "profileTotals (absorb grid gridW c st)
     = fold (\<lambda>(k, v). addTally k v) (profiles (grid ! c)) (profileTotals st)"
  "minX (absorb grid gridW c st) = min (minX st) (c mod gridW)"
  "maxX (absorb grid gridW c st) = max (maxX st) (c mod gridW)"
  "minY (absorb grid gridW c st) = min (minY st) (c div gridW)"
  "maxY (absorb grid gridW c st) = max (maxY st) (c div gridW)"
  by (simp_all add: absorb_def)

lemma fold_absorb_total:
  "totalPixels (fold (absorb grid gridW) cs st)
     = totalPixels st + sum_list (map (\<lambda>c. count (grid ! c)) cs)"
  by (induction cs arbitrary: st) simp_all

lemma fold_absorb_tally:
  "tallyOf (profileTotals (fold (absorb grid gridW) cs st)) k
     = tallyOf (profileTotals st) k + sum_list (map (\<lambda>c. tallyOf (profiles (grid ! c)) k) cs)"
  by (induction cs arbitrary: st) (simp_all add: fold_addTally_tally)

lemma fold_absorb_sum:
  "sum_list (map snd (profileTotals (fold (absorb grid gridW) cs st)))
     = sum_list (map snd (profileTotals st))
       + sum_list (map (\<lambda>c. sum_list (map snd (profiles (grid ! c)))) cs)"
  by (induction cs arbitrary: st) (simp_all add: fold_addTally_sum)

lemma fold_absorb_keys:
  "fst ` set (profileTotals (fold (absorb grid gridW) cs st))
     = fst ` set (profileTotals st) \<union> (\<Union>c \<in> set cs. fst ` set (profiles (grid ! c)))"
  by (induction cs arbitrary: st) (auto simp: fold_addTally_keys)

lemma fold_absorb_distinct:
  "distinct (map fst (profileTotals st))
     \<Longrightarrow> distinct (map fst (profileTotals (fold (absorb grid gridW) cs st)))"
  by (induction cs arbitrary: st) (simp_all add: fold_addTally_distinct)

lemma Min_insert_min:
  fixes a b :: nat
  assumes "finite S"
  shows "Min (insert (min a b) S) = Min (insert a (insert b S))"
proof (cases "S = {}")
  case True
  then show ?thesis by simp
next
  case False
  then show ?thesis using assms by (simp add: min.assoc)
qed

lemma Max_insert_max:
  fixes a b :: nat
  assumes "finite S"
  shows "Max (insert (max a b) S) = Max (insert a (insert b S))"
proof (cases "S = {}")
  case True
  then show ?thesis by simp
next
  case False
  then show ?thesis using assms by (simp add: max.assoc)
qed

lemma fold_absorb_minX:
  "minX (fold (absorb grid gridW) cs st) = Min (insert (minX st) ((\<lambda>c. c mod gridW) ` set cs))"
proof (induction cs arbitrary: st)
  case Nil
  then show ?case by simp
next
  case (Cons c cs)
  have "minX (fold (absorb grid gridW) (c # cs) st)
      = Min (insert (min (minX st) (c mod gridW)) ((\<lambda>c. c mod gridW) ` set cs))"
    by (simp add: Cons.IH)
  also have "\<dots> = Min (insert (minX st) (insert (c mod gridW) ((\<lambda>c. c mod gridW) ` set cs)))"
    by (rule Min_insert_min) simp
  finally show ?case by simp
qed

lemma fold_absorb_maxX:
  "maxX (fold (absorb grid gridW) cs st) = Max (insert (maxX st) ((\<lambda>c. c mod gridW) ` set cs))"
proof (induction cs arbitrary: st)
  case Nil
  then show ?case by simp
next
  case (Cons c cs)
  have "maxX (fold (absorb grid gridW) (c # cs) st)
      = Max (insert (max (maxX st) (c mod gridW)) ((\<lambda>c. c mod gridW) ` set cs))"
    by (simp add: Cons.IH)
  also have "\<dots> = Max (insert (maxX st) (insert (c mod gridW) ((\<lambda>c. c mod gridW) ` set cs)))"
    by (rule Max_insert_max) simp
  finally show ?case by simp
qed

lemma fold_absorb_minY:
  "minY (fold (absorb grid gridW) cs st) = Min (insert (minY st) ((\<lambda>c. c div gridW) ` set cs))"
proof (induction cs arbitrary: st)
  case Nil
  then show ?case by simp
next
  case (Cons c cs)
  have "minY (fold (absorb grid gridW) (c # cs) st)
      = Min (insert (min (minY st) (c div gridW)) ((\<lambda>c. c div gridW) ` set cs))"
    by (simp add: Cons.IH)
  also have "\<dots> = Min (insert (minY st) (insert (c div gridW) ((\<lambda>c. c div gridW) ` set cs)))"
    by (rule Min_insert_min) simp
  finally show ?case by simp
qed

lemma fold_absorb_maxY:
  "maxY (fold (absorb grid gridW) cs st) = Max (insert (maxY st) ((\<lambda>c. c div gridW) ` set cs))"
proof (induction cs arbitrary: st)
  case Nil
  then show ?case by simp
next
  case (Cons c cs)
  have "maxY (fold (absorb grid gridW) (c # cs) st)
      = Max (insert (max (maxY st) (c div gridW)) ((\<lambda>c. c div gridW) ` set cs))"
    by (simp add: Cons.IH)
  also have "\<dots> = Max (insert (maxY st) (insert (c div gridW) ((\<lambda>c. c div gridW) ` set cs)))"
    by (rule Max_insert_max) simp
  finally show ?case by simp
qed

lemma addPixel_spec:
  assumes "cellIndex gridW px < length grid"
  shows "addPixel gridW px grid =
     Inr (grid[cellIndex gridW px :=
            \<lparr>count = count (grid ! cellIndex gridW px) + 1,
             profiles = addTally (pixelLabel px) 1 (profiles (grid ! cellIndex gridW px))\<rparr>])"
  using assms by (cases px) (simp add: addPixel_def cellIndex_def pixelLabel_def Let_def)

lemma fillGrid_spec:
  assumes "\<forall>px \<in> set pixels. cellIndex gridW px < length grid0"
  shows "\<exists>grid. fillGrid gridW pixels grid0 = Inr grid \<and> length grid = length grid0
     \<and> (\<forall>i < length grid0.
           count (grid ! i) = count (grid0 ! i) + length (cellPixels gridW pixels i)
         \<and> profiles (grid ! i) = tallyPixels (cellPixels gridW pixels i) (profiles (grid0 ! i)))"
  using assms
proof (induction pixels arbitrary: grid0)
  case Nil
  then show ?case by (simp add: cellPixels_def tallyPixels_def)
next
  case (Cons px pixels)
  define j where "j = cellIndex gridW px"
  define grid1 where "grid1 = grid0[j := \<lparr>count = count (grid0 ! j) + 1,
             profiles = addTally (pixelLabel px) 1 (profiles (grid0 ! j))\<rparr>]"
  have j: "j < length grid0" using Cons.prems by (simp add: j_def)
  have ap: "addPixel gridW px grid0 = Inr grid1"
    using addPixel_spec[of gridW px grid0] j by (simp add: j_def grid1_def)
  have len1: "length grid1 = length grid0" by (simp add: grid1_def)
  have "\<forall>px \<in> set pixels. cellIndex gridW px < length grid1"
    using Cons.prems by (simp add: len1)
  then obtain grid where g: "fillGrid gridW pixels grid1 = Inr grid" "length grid = length grid1"
    "\<forall>i < length grid1.
           count (grid ! i) = count (grid1 ! i) + length (cellPixels gridW pixels i)
         \<and> profiles (grid ! i) = tallyPixels (cellPixels gridW pixels i) (profiles (grid1 ! i))"
    using Cons.IH by blast
  have "\<forall>i < length grid0.
           count (grid ! i) = count (grid0 ! i) + length (cellPixels gridW (px # pixels) i)
         \<and> profiles (grid ! i) = tallyPixels (cellPixels gridW (px # pixels) i) (profiles (grid0 ! i))"
  proof (intro allI impI)
    fix i assume i: "i < length grid0"
    show "count (grid ! i) = count (grid0 ! i) + length (cellPixels gridW (px # pixels) i)
         \<and> profiles (grid ! i) = tallyPixels (cellPixels gridW (px # pixels) i) (profiles (grid0 ! i))"
    proof (cases "i = j")
      case True
      have "grid1 ! i = \<lparr>count = count (grid0 ! j) + 1,
             profiles = addTally (pixelLabel px) 1 (profiles (grid0 ! j))\<rparr>"
        using j True by (simp add: grid1_def)
      then show ?thesis
        using g(3) i len1 True by (simp add: cellPixels_def tallyPixels_def j_def)
    next
      case False
      have "grid1 ! i = grid0 ! i" using False by (simp add: grid1_def)
      then show ?thesis
        using g(3) i len1 False by (simp add: cellPixels_def tallyPixels_def j_def)
    qed
  qed
  then show ?case using g(1,2) ap len1 by simp
qed

lemma tallyPixels_sum:
  "sum_list (map snd (tallyPixels pxs t)) = sum_list (map snd t) + length pxs"
  unfolding tallyPixels_def by (induction pxs arbitrary: t) (simp_all add: sum_addTally)

lemma tallyPixels_keys:
  "fst ` set (tallyPixels pxs t) = fst ` set t \<union> pixelLabel ` set pxs"
  unfolding tallyPixels_def by (induction pxs arbitrary: t) (auto simp: keys_addTally)

lemma tallyPixels_distinct:
  "distinct (map fst t) \<Longrightarrow> distinct (map fst (tallyPixels pxs t))"
  unfolding tallyPixels_def by (induction pxs arbitrary: t) (simp_all add: distinct_addTally)

lemma tallyPixels_tally:
  "tallyOf (tallyPixels pxs t) k = tallyOf t k + length (filter (\<lambda>px. pixelLabel px = k) pxs)"
  unfolding tallyPixels_def by (induction pxs arbitrary: t) (simp_all add: tallyOf_addTally)

lemma tallyOf_Nil: "tallyOf [] k = 0"
  by (simp add: tallyOf_def)

lemma find_label:
  assumes "k \<in> label ` set profs"
  shows "\<exists>prof \<in> set profs. find (\<lambda>p. label p = k) profs = Some prof \<and> label prof = k"
  using assms by (induction profs) auto

lemma finishBox_ok:
  assumes pos: "0 < sum_list (map snd (profileTotals st))"
    and keys: "fst ` set (profileTotals st) \<subseteq> label ` set profs"
    and dist: "distinct (map fst (profileTotals st))"
  shows "\<exists>b. finishBox profs st = Inr b
     \<and> box_x b = minX st * GRID \<and> box_y b = minY st * GRID
     \<and> box_w b = (maxX st - minX st + 1) * GRID \<and> box_h b = (maxY st - minY st + 1) * GRID
     \<and> box_pixels b = totalPixels st
     \<and> (\<forall>k. tallyOf (profileTotals st) k \<le> tallyOf (profileTotals st) (box_label b))
     \<and> (\<exists>prof \<in> set profs. label prof = box_label b \<and> box_color b = color prof
            \<and> box_severity b = severity prof \<and> box_hatchStyle b = hatchStyle prof)"
proof -
  let ?t = "profileTotals st"
  have ne: "?t \<noteq> []" using pos by auto
  then obtain e where e: "dominantEntry ?t = Some e" using dominantEntry_Some by blast
  obtain i where i: "i < length ?t" "e = ?t ! i" "\<forall>j < length ?t. snd (?t ! j) \<le> snd (?t ! i)"
    using dominantEntry_first_max[OF e] by blast
  have mem: "e \<in> set ?t" using i(1,2) by simp
  then have "fst e \<in> label ` set profs" using keys by auto
  then obtain prof where prof: "prof \<in> set profs" "find (\<lambda>p. label p = fst e) profs = Some prof"
    "label prof = fst e"
    using find_label by blast
  have te: "tallyOf ?t (fst e) = snd e"
    using tallyOf_distinct[OF dist, of "fst e" "snd e"] mem by simp
  have mx: "tallyOf ?t k \<le> snd e" for k
  proof (cases "k \<in> fst ` set ?t")
    case True
    then obtain v where kv: "(k, v) \<in> set ?t" by auto
    then obtain j where j: "j < length ?t" "?t ! j = (k, v)" by (meson in_set_conv_nth)
    have "tallyOf ?t k = v" using tallyOf_distinct[OF dist kv] .
    moreover have "v \<le> snd e" using i(3) j i(2) by (metis snd_conv)
    ultimately show ?thesis by simp
  next
    case False
    then show ?thesis by (simp add: tallyOf_absent)
  qed
  define b where "b = \<lparr>box_x = minX st * GRID, box_y = minY st * GRID,
                  box_w = (maxX st - minX st + 1) * GRID,
                  box_h = (maxY st - minY st + 1) * GRID,
                  box_label = label prof, box_color = color prof,
                  box_severity = severity prof,
                  box_hatchStyle = hatchStyle prof,
                  box_pixels = totalPixels st\<rparr>"
  have fb: "finishBox profs st = Inr b"
    by (simp add: finishBox_def e prof(2) b_def)
  have lb: "box_label b = fst e" by (simp add: b_def prof(3))
  have "\<forall>k. tallyOf ?t k \<le> tallyOf ?t (box_label b)" using mx te lb by simp
  moreover have "\<exists>prof \<in> set profs. label prof = box_label b \<and> box_color b = color prof
            \<and> box_severity b = severity prof \<and> box_hatchStyle b = hatchStyle prof"
    using prof(1) by (intro bexI[of _ prof]) (simp_all add: b_def)
  ultimately show ?thesis using fb by (intro exI[of _ b]) (simp add: b_def)
qed

lemma scanCell_component:
  assumes gx: "gx < gridW" and gy: "gy < gridH"
    and nv: "gy * gridW + gx \<notin> V" and act: "active grid (gy * gridW + gx)"
    and sealed: "sealed grid gridW gridH V" and ok: "gridOK profs grid (gridW * gridH)"
  shows "(compTotal grid (component grid gridW gridH (gy * gridW + gx)) < 8 \<longrightarrow>
            scanCell profs grid gridW gridH (gy, gx) (V, boxes)
              = Inr (V \<union> component grid gridW gridH (gy * gridW + gx), boxes))
       \<and> (\<not> compTotal grid (component grid gridW gridH (gy * gridW + gx)) < 8 \<longrightarrow>
            (\<exists>b. boxOfComp profs grid gridW (component grid gridW gridH (gy * gridW + gx)) b
               \<and> scanCell profs grid gridW gridH (gy, gx) (V, boxes)
                   = Inr (V \<union> component grid gridW gridH (gy * gridW + gx), boxes @ [b])))"
proof -
  define s where "s = gy * gridW + gx"
  define C where "C = component grid gridW gridH s"
  have sN: "s < gridW * gridH" unfolding s_def using gx gy by (rule index_bound)
  have sx: "s mod gridW = gx" and sy: "s div gridW = gy"
    using index_coords[OF gx, of gy] by (simp_all add: s_def)
  obtain more where m:
    "floodFill grid gridW gridH (initFill gx gy s V)
       = (fold (absorb grid gridW) (s # more) (initFill gx gy s V))\<lparr>queue := [], visited := V \<union> C\<rparr>"
    "distinct (s # more)" "set (s # more) = C" "C \<inter> V = {}"
    using floodFill_component[OF sN act[folded s_def] nv[folded s_def] sealed, of gx gy]
    unfolding C_def by blast
  define cs where "cs = s # more"
  define st where "st = floodFill grid gridW gridH (initFill gx gy s V)"
  have st_eq: "st = (fold (absorb grid gridW) cs (initFill gx gy s V))\<lparr>queue := [], visited := V \<union> C\<rparr>"
    using m(1) by (simp add: st_def cs_def)
  have dist: "distinct cs" and setcs: "set cs = C" using m(2,3) by (simp_all add: cs_def)
  have fin: "finite C" using setcs by (metis List.finite_set)
  have inC: "s \<in> C" using m(3) by auto
  have CN: "\<forall>c \<in> C. c < gridW * gridH"
  proof
    fix c assume "c \<in> C"
    then have "(s, c) \<in> (edge grid gridW gridH)\<^sup>*" by (simp add: C_def component_def)
    then show "c < gridW * gridH"
      using sN by (cases rule: rtranclE) (auto simp: edge_iff)
  qed
  have vis: "visited st = V \<union> C" by (simp add: st_eq)
  have tot: "totalPixels st = compTotal grid C"
    unfolding st_eq compTotal_def setcs[symmetric]
    by (simp add: fold_absorb_total initFill_def sum_list_distinct_conv_sum_set[OF dist])
  have tal: "tallyOf (profileTotals st) k = compTally grid C k" for k
    unfolding st_eq compTally_def setcs[symmetric]
    by (simp add: fold_absorb_tally initFill_def sum_list_distinct_conv_sum_set[OF dist] tallyOf_Nil)
  have sm: "sum_list (map snd (profileTotals st)) = compTotal grid C"
  proof -
    have "sum_list (map snd (profileTotals st))
        = sum_list (map (\<lambda>c. sum_list (map snd (profiles (grid ! c)))) cs)"
      unfolding st_eq by (simp add: fold_absorb_sum initFill_def)
    also have "\<dots> = sum_list (map (\<lambda>c. count (grid ! c)) cs)"
    proof (rule arg_cong[where f = sum_list], rule map_cong[OF refl])
      fix c assume "c \<in> set cs"
      then have "c < gridW * gridH" using CN setcs by blast
      then show "sum_list (map snd (profiles (grid ! c))) = count (grid ! c)"
        using ok by (simp add: gridOK_def)
    qed
    also have "\<dots> = compTotal grid C"
      unfolding compTotal_def setcs[symmetric] by (simp add: sum_list_distinct_conv_sum_set[OF dist])
    finally show ?thesis .
  qed
  have keys: "fst ` set (profileTotals st) \<subseteq> label ` set profs"
  proof -
    have "fst ` set (profileTotals st) = (\<Union>c \<in> set cs. fst ` set (profiles (grid ! c)))"
      unfolding st_eq by (simp add: fold_absorb_keys initFill_def)
    moreover have "\<forall>c \<in> set cs. fst ` set (profiles (grid ! c)) \<subseteq> label ` set profs"
      using ok CN setcs by (simp add: gridOK_def)
    ultimately show ?thesis by blast
  qed
  have dk: "distinct (map fst (profileTotals st))"
    unfolding st_eq using fold_absorb_distinct[of "initFill gx gy s V" grid gridW cs]
    by (simp add: initFill_def)
  have ix: "insert gx ((\<lambda>c. c mod gridW) ` C) = (\<lambda>c. c mod gridW) ` C"
    using inC sx by blast
  have iy: "insert gy ((\<lambda>c. c div gridW) ` C) = (\<lambda>c. c div gridW) ` C"
    using inC sy by blast
  have mnx: "minX st = Min ((\<lambda>c. c mod gridW) ` C)"
    unfolding st_eq by (simp add: fold_absorb_minX initFill_def setcs ix)
  have mxx: "maxX st = Max ((\<lambda>c. c mod gridW) ` C)"
    unfolding st_eq by (simp add: fold_absorb_maxX initFill_def setcs ix)
  have mny: "minY st = Min ((\<lambda>c. c div gridW) ` C)"
    unfolding st_eq by (simp add: fold_absorb_minY initFill_def setcs iy)
  have mxy: "maxY st = Max ((\<lambda>c. c div gridW) ` C)"
    unfolding st_eq by (simp add: fold_absorb_maxY initFill_def setcs iy)
  have unfold: "scanCell profs grid gridW gridH (gy, gx) (V, boxes) =
      (if totalPixels st < 8 then Inr (visited st, boxes)
       else (case finishBox profs st of Inl e \<Rightarrow> Inl e | Inr b \<Rightarrow> Inr (visited st, boxes @ [b])))"
    unfolding scanCell_unfold st_def s_def using nv act by simp
  have small: "compTotal grid C < 8 \<longrightarrow>
      scanCell profs grid gridW gridH (gy, gx) (V, boxes) = Inr (V \<union> C, boxes)"
    unfolding unfold by (simp add: tot vis)
  have big: "\<not> compTotal grid C < 8 \<longrightarrow>
      (\<exists>b. boxOfComp profs grid gridW C b
         \<and> scanCell profs grid gridW gridH (gy, gx) (V, boxes) = Inr (V \<union> C, boxes @ [b]))"
  proof
    assume nb: "\<not> compTotal grid C < 8"
    then have pos: "0 < sum_list (map snd (profileTotals st))" using sm by simp
    obtain b where b: "finishBox profs st = Inr b"
      "box_x b = minX st * GRID" "box_y b = minY st * GRID"
      "box_w b = (maxX st - minX st + 1) * GRID" "box_h b = (maxY st - minY st + 1) * GRID"
      "box_pixels b = totalPixels st"
      "\<forall>k. tallyOf (profileTotals st) k \<le> tallyOf (profileTotals st) (box_label b)"
      "\<exists>prof \<in> set profs. label prof = box_label b \<and> box_color b = color prof
            \<and> box_severity b = severity prof \<and> box_hatchStyle b = hatchStyle prof"
      using finishBox_ok[OF pos keys dk] by blast
    have "boxOfComp profs grid gridW C b"
      unfolding boxOfComp_def using b(2-8) by (simp add: mnx mxx mny mxy tot tal)
    moreover have "scanCell profs grid gridW gridH (gy, gx) (V, boxes) = Inr (V \<union> C, boxes @ [b])"
      unfolding unfold using nb by (simp add: tot vis b(1))
    ultimately show "\<exists>b. boxOfComp profs grid gridW C b
         \<and> scanCell profs grid gridW gridH (gy, gx) (V, boxes) = Inr (V \<union> C, boxes @ [b])"
      by blast
  qed
  show ?thesis using small big unfolding C_def s_def by blast
qed

lemma scanCells_append:
  "scanCells profs grid gridW gridH (xs @ ys) vb =
     (case scanCells profs grid gridW gridH xs vb of
        Inl e \<Rightarrow> Inl e
      | Inr vb' \<Rightarrow> scanCells profs grid gridW gridH ys vb')"
  by (induction xs arbitrary: vb) (simp_all split: sum.splits)

lemma cellOrder_index:
  "cellOrder gridW gridH = map (cellAt gridW) [0..<gridW * gridH]"
proof (induction gridH)
  case 0
  then show ?case by (simp add: cellOrder_def)
next
  case (Suc gridH)
  have row: "map (cellAt gridW) [gridW * gridH..<gridW * gridH + gridW]
      = map (\<lambda>gx. (gridH, gx)) [0..<gridW]"
  proof (rule nth_equalityI)
    show "length (map (cellAt gridW) [gridW * gridH..<gridW * gridH + gridW])
        = length (map (\<lambda>gx. (gridH, gx)) [0..<gridW])" by simp
  next
    fix i assume "i < length (map (cellAt gridW) [gridW * gridH..<gridW * gridH + gridW])"
    then have i: "i < gridW" by simp
    have "cellAt gridW (gridW * gridH + i) = (gridH, i)"
      using index_coords[OF i, of gridH] by (simp add: cellAt_def mult.commute)
    then show "map (cellAt gridW) [gridW * gridH..<gridW * gridH + gridW] ! i
        = map (\<lambda>gx. (gridH, gx)) [0..<gridW] ! i"
      using i by simp
  qed
  have "cellOrder gridW (Suc gridH) = cellOrder gridW gridH @ map (\<lambda>gx. (gridH, gx)) [0..<gridW]"
    by (simp add: cellOrder_def)
  also have "\<dots> = map (cellAt gridW) [0..<gridW * gridH]
       @ map (cellAt gridW) [gridW * gridH..<gridW * gridH + gridW]"
    by (simp add: Suc.IH row)
  also have "\<dots> = map (cellAt gridW) ([0..<gridW * gridH] @ [gridW * gridH..<gridW * gridH + gridW])"
    by simp
  also have "[0..<gridW * gridH] @ [gridW * gridH..<gridW * gridH + gridW] = [0..<gridW * Suc gridH]"
    by (metis le0 mult_Suc_right add.commute upt_add_eq_append)
  finally show ?case .
qed

lemma cellAt_index:
  assumes "i < gridW * gridH"
  shows "fst (cellAt gridW i) * gridW + snd (cellAt gridW i) = i"
    "snd (cellAt gridW i) < gridW" "fst (cellAt gridW i) < gridH"
  using coords_bound[OF assms] by (simp_all add: cellAt_def)

lemma scanCell_skip:
  assumes "i < gridW * gridH" "i \<in> V \<or> \<not> active grid i"
  shows "scanCell profs grid gridW gridH (cellAt gridW i) (V, boxes) = Inr (V, boxes)"
proof -
  have "scanCell profs grid gridW gridH (fst (cellAt gridW i), snd (cellAt gridW i)) (V, boxes)
      = Inr (V, boxes)"
    unfolding scanCell_unfold cellAt_index(1)[OF assms(1)] using assms(2) by auto
  then show ?thesis by simp
qed

lemma scanCells_skip:
  assumes "\<forall>i \<in> set js. i < gridW * gridH \<and> (i \<in> V \<or> \<not> active grid i)"
  shows "scanCells profs grid gridW gridH (map (cellAt gridW) js) (V, boxes) = Inr (V, boxes)"
  using assms by (induction js) (simp_all add: scanCell_skip)

lemma scanCell_start:
  assumes i: "i < gridW * gridH" "i \<notin> V" "active grid i"
    and sealed: "sealed grid gridW gridH V" and ok: "gridOK profs grid (gridW * gridH)"
  shows "(compTotal grid (component grid gridW gridH i) < 8 \<longrightarrow>
            scanCell profs grid gridW gridH (cellAt gridW i) (V, boxes)
              = Inr (V \<union> component grid gridW gridH i, boxes))
       \<and> (\<not> compTotal grid (component grid gridW gridH i) < 8 \<longrightarrow>
            (\<exists>b. boxOfComp profs grid gridW (component grid gridW gridH i) b
               \<and> scanCell profs grid gridW gridH (cellAt gridW i) (V, boxes)
                   = Inr (V \<union> component grid gridW gridH i, boxes @ [b])))"
proof -
  note c = cellAt_index[OF i(1)]
  have "cellAt gridW i = (fst (cellAt gridW i), snd (cellAt gridW i))" by simp
  then show ?thesis
    using scanCell_component[OF c(2) c(3) _ _ sealed ok, of boxes] i(2,3)
    unfolding c(1) by metis
qed


lemma upt_split5:
  assumes "a < b" "b < n"
  shows "[0..<n] = [0..<a] @ a # [Suc a..<b] @ b # [Suc b..<n]"
proof -
  have "[0..<n] = [0..<a] @ [a..<n]" using assms by (intro upt_split) simp_all
  moreover have "[a..<n] = a # [Suc a..<n]" using assms by (simp add: upt_conv_Cons)
  moreover have "[Suc a..<n] = [Suc a..<b] @ [b..<n]" using assms by (intro upt_split) simp_all
  moreover have "[b..<n] = b # [Suc b..<n]" using assms by (simp add: upt_conv_Cons)
  ultimately show ?thesis by simp
qed

lemma scan_two_components:
  assumes ok: "gridOK profs grid (gridW * gridH)"
    and actives: "{i. i < gridW * gridH \<and> active grid i} = A \<union> B"
    and disj: "A \<inter> B = {}" and neB: "B \<noteq> {}"
    and a: "a \<in> A" "\<forall>i \<in> A \<union> B. a \<le> i"
    and compA: "component grid gridW gridH a = A"
    and compB: "\<forall>s \<in> B. component grid gridW gridH s = B"
    and totA: "\<not> compTotal grid A < 8" and totB: "\<not> compTotal grid B < 8"
  shows "\<exists>bA bB. scanCells profs grid gridW gridH (map (cellAt gridW) [0..<gridW * gridH]) ({}, [])
            = Inr (A \<union> B, [bA, bB])
          \<and> boxOfComp profs grid gridW A bA \<and> boxOfComp profs grid gridW B bB"
proof -
  let ?N = "gridW * gridH"
  have AB: "\<forall>i \<in> A \<union> B. i < ?N \<and> active grid i" using actives by blast
  have act_in: "\<And>i. i < ?N \<Longrightarrow> active grid i \<Longrightarrow> i \<in> A \<union> B" using actives by blast
  have finB: "finite B"
  proof (rule finite_subset)
    show "B \<subseteq> {..<?N}" using AB by auto
  qed simp
  define b where "b = Min B"
  have bB: "b \<in> B" unfolding b_def using finB neB by (rule Min_in)
  have bmin: "\<forall>i \<in> B. b \<le> i" unfolding b_def using finB by simp
  have ab: "a < b"
  proof -
    have "a \<le> b" using a(2) bB by blast
    moreover have "a \<noteq> b" using a(1) bB disj by blast
    ultimately show ?thesis by simp
  qed
  have bN: "b < ?N" using AB bB by blast
  have aN: "a < ?N" using AB a(1) by blast
  have split: "[0..<?N] = [0..<a] @ a # [Suc a..<b] @ b # [Suc b..<?N]"
    using ab bN by (rule upt_split5)
  \<comment> \<open>cells before the first active cell\<close>
  have s1: "scanCells profs grid gridW gridH (map (cellAt gridW) [0..<a]) ({}, []) = Inr ({}, [])"
  proof (rule scanCells_skip, intro ballI conjI)
    fix i assume "i \<in> set [0..<a]"
    then have i: "i < a" by simp
    then show "i < ?N" using aN by simp
    have "i \<notin> A \<union> B"
    proof
      assume "i \<in> A \<union> B"
      then have "a \<le> i" using a(2) by blast
      then show False using i by simp
    qed
    then show "i \<in> {} \<or> \<not> active grid i" using act_in \<open>i < ?N\<close> by blast
  qed
  \<comment> \<open>the first group\<close>
  obtain bA where bA: "boxOfComp profs grid gridW A bA"
    "scanCell profs grid gridW gridH (cellAt gridW a) ({}, []) = Inr (A, [bA])"
    using scanCell_start[OF aN _ _ sealed_empty ok, of "[]"] AB a(1) totA
    unfolding compA by auto
  have sealedA: "sealed grid gridW gridH A"
    using sealed_extend[OF sealed_empty, of grid gridW gridH a] by (simp add: compA)
  \<comment> \<open>cells between the two first cells\<close>
  have s2: "scanCells profs grid gridW gridH (map (cellAt gridW) [Suc a..<b]) (A, [bA]) = Inr (A, [bA])"
  proof (rule scanCells_skip, intro ballI conjI)
    fix i assume "i \<in> set [Suc a..<b]"
    then have i: "a < i" "i < b" by simp_all
    then show iN: "i < ?N" using bN by simp
    have "i \<notin> B"
    proof
      assume "i \<in> B"
      then have "b \<le> i" using bmin by blast
      then show False using i(2) by simp
    qed
    then show "i \<in> A \<or> \<not> active grid i" using act_in iN by blast
  qed
  \<comment> \<open>the second group\<close>
  have bnA: "b \<notin> A" using bB disj by blast
  obtain bB' where bB': "boxOfComp profs grid gridW B bB'"
    "scanCell profs grid gridW gridH (cellAt gridW b) (A, [bA]) = Inr (A \<union> B, [bA, bB'])"
    using scanCell_start[OF bN bnA _ sealedA ok, of "[bA]"] AB bB totB compB
    by auto
  \<comment> \<open>the remaining cells\<close>
  have s3: "scanCells profs grid gridW gridH (map (cellAt gridW) [Suc b..<?N]) (A \<union> B, [bA, bB'])
      = Inr (A \<union> B, [bA, bB'])"
  proof (rule scanCells_skip, intro ballI conjI)
    fix i assume "i \<in> set [Suc b..<?N]"
    then show iN: "i < ?N" by simp
    show "i \<in> A \<union> B \<or> \<not> active grid i" using act_in iN by blast
  qed
  have "scanCells profs grid gridW gridH (map (cellAt gridW) [0..<?N]) ({}, [])
      = Inr (A \<union> B, [bA, bB'])"
    unfolding split by (simp add: scanCells_append s1 bA(2) s2 bB'(2) s3)
  then show ?thesis using bA(1) bB'(1) by blast
qed

lemma coords_inj: "coords gridW i = coords gridW j \<Longrightarrow> i = j"
proof -
  assume "coords gridW i = coords gridW j"
  then have "i mod gridW = j mod gridW" "i div gridW = j div gridW" by (simp_all add: coords_def)
  then show "i = j" by (metis div_mult_mod_eq)
qed

lemma cell_in_grid:
  assumes "x < n"
  shows "x div GRID < gridSize n"
proof -
  have "real (x div GRID) \<le> real x / real GRID"
    by (rule of_nat_div_le_of_nat)
  also have "\<dots> < real n / real GRID" using assms by (simp add: GRID_def)
  finally have "real_of_int (int (x div GRID)) < real n / real GRID" by simp
  then have "int (x div GRID) < \<lceil>real n / real GRID\<rceil>" by (simp only: less_ceiling_iff)
  then show ?thesis by (simp add: gridSize_def)
qed

lemma cellIndex_cellOf:
  "cellIndex gridW px = snd (spec_cellOf px) * gridW + fst (spec_cellOf px)"
  by (cases px) (simp add: cellIndex_def spec_cellOf_def)

lemma pixel_cell:
  assumes "pixelsOK profs width height pixels" "px \<in> set pixels"
  shows "fst (spec_cellOf px) < gridSize width" "snd (spec_cellOf px) < gridSize height"
    "cellIndex (gridSize width) px < gridSize width * gridSize height"
    "coords (gridSize width) (cellIndex (gridSize width) px) = spec_cellOf px"
proof -
  have r: "fst px < width" "fst (snd px) < height" using assms by (simp_all add: pixelsOK_def)
  show x: "fst (spec_cellOf px) < gridSize width"
    using cell_in_grid[OF r(1)] by (simp add: spec_cellOf_def)
  show y: "snd (spec_cellOf px) < gridSize height"
    using cell_in_grid[OF r(2)] by (simp add: spec_cellOf_def)
  show "cellIndex (gridSize width) px < gridSize width * gridSize height"
    unfolding cellIndex_cellOf using x y by (rule index_bound)
  show "coords (gridSize width) (cellIndex (gridSize width) px) = spec_cellOf px"
    unfolding cellIndex_cellOf coords_def using index_coords[OF x, of "snd (spec_cellOf px)"]
    by simp
qed

lemma cellPixels_cellOf:
  assumes "pixelsOK profs width height pixels"
  shows "cellPixels (gridSize width) pixels i
     = filter (\<lambda>px. spec_cellOf px = coords (gridSize width) i) pixels"
  unfolding cellPixels_def
proof (rule filter_cong[OF refl])
  fix px assume px: "px \<in> set pixels"
  note c = pixel_cell(4)[OF assms px]
  show "(cellIndex (gridSize width) px = i) = (spec_cellOf px = coords (gridSize width) i)"
  proof
    assume "cellIndex (gridSize width) px = i"
    then show "spec_cellOf px = coords (gridSize width) i" using c by simp
  next
    assume "spec_cellOf px = coords (gridSize width) i"
    then have "coords (gridSize width) (cellIndex (gridSize width) px) = coords (gridSize width) i"
      using c by simp
    then show "cellIndex (gridSize width) px = i" by (rule coords_inj)
  qed
qed

lemma grid_of_pixels:
  assumes "pixelsOK profs width height pixels"
  shows "\<exists>grid. fillGrid (gridSize width) pixels
                  (replicate (gridSize width * gridSize height) emptyCell) = Inr grid
     \<and> gridOK profs grid (gridSize width * gridSize height)
     \<and> (\<forall>i < gridSize width * gridSize height.
           count (grid ! i) = spec_cellCount pixels (coords (gridSize width) i)
         \<and> profiles (grid ! i)
             = tallyPixels (filter (\<lambda>px. spec_cellOf px = coords (gridSize width) i) pixels) [])"
proof -
  let ?N = "gridSize width * gridSize height"
  have "\<forall>px \<in> set pixels. cellIndex (gridSize width) px < length (replicate ?N emptyCell)"
    using pixel_cell(3)[OF assms] by simp
  then obtain grid where g: "fillGrid (gridSize width) pixels (replicate ?N emptyCell) = Inr grid"
    "length grid = length (replicate ?N emptyCell)"
    "\<forall>i < length (replicate ?N emptyCell).
        count (grid ! i) = count (replicate ?N emptyCell ! i)
                             + length (cellPixels (gridSize width) pixels i)
      \<and> profiles (grid ! i) = tallyPixels (cellPixels (gridSize width) pixels i)
                                  (profiles (replicate ?N emptyCell ! i))"
    using fillGrid_spec by blast
  have cells: "\<forall>i < ?N. count (grid ! i) = spec_cellCount pixels (coords (gridSize width) i)
         \<and> profiles (grid ! i)
             = tallyPixels (filter (\<lambda>px. spec_cellOf px = coords (gridSize width) i) pixels) []"
    using g(3) by (simp add: emptyCell_def cellPixels_cellOf[OF assms] spec_cellCount_def)
  have "gridOK profs grid ?N"
    unfolding gridOK_def
  proof (intro conjI allI impI)
    show "length grid = ?N" using g(2) by simp
  next
    fix i assume i: "i < ?N"
    show "sum_list (map snd (profiles (grid ! i))) = count (grid ! i)"
      using cells i by (simp add: tallyPixels_sum spec_cellCount_def)
    have "pixelLabel ` set (filter (\<lambda>px. spec_cellOf px = coords (gridSize width) i) pixels)
        \<subseteq> label ` set profs"
      using assms by (auto simp: pixelsOK_def)
    then show "fst ` set (profiles (grid ! i)) \<subseteq> label ` set profs"
      using cells i by (simp add: tallyPixels_keys)
  qed
  then show ?thesis using g(1) cells by blast
qed

lemma sum_filter_length:
  assumes "finite C"
  shows "(\<Sum>c \<in> C. length (filter (\<lambda>px. f px = c \<and> P px) pixels))
     = length (filter (\<lambda>px. f px \<in> C \<and> P px) pixels)"
proof (induction pixels)
  case Nil
  then show ?case by simp
next
  case (Cons px pixels)
  have "(\<Sum>c \<in> C. length (filter (\<lambda>px. f px = c \<and> P px) (px # pixels)))
      = (\<Sum>c \<in> C. (if f px = c \<and> P px then 1 else 0)
                    + length (filter (\<lambda>px. f px = c \<and> P px) pixels))"
    by (rule sum.cong) simp_all
  also have "\<dots> = (\<Sum>c \<in> C. if f px = c \<and> P px then 1 else 0)
                    + length (filter (\<lambda>px. f px \<in> C \<and> P px) pixels)"
    by (simp add: sum.distrib Cons.IH)
  also have "(\<Sum>c \<in> C. if f px = c \<and> P px then 1 else 0)
      = (if f px \<in> C \<and> P px then 1 else (0::nat))"
  proof (cases "P px")
    case True
    then have "(\<Sum>c \<in> C. if f px = c \<and> P px then 1 else 0)
        = (\<Sum>c \<in> C. if f px = c then 1 else (0::nat))" by simp
    also have "\<dots> = (if f px \<in> C then 1 else 0)" using assms by (simp add: sum.delta')
    finally show ?thesis using True by simp
  next
    case False
    then show ?thesis by simp
  qed
  finally show ?case by simp
qed

lemma spec_active_in_range:
  assumes ok: "pixelsOK profs width height pixels" and act: "spec_active pixels c"
  shows "fst c < gridSize width \<and> snd c < gridSize height
     \<and> snd c * gridSize width + fst c < gridSize width * gridSize height
     \<and> coords (gridSize width) (snd c * gridSize width + fst c) = c"
proof -
  have "3 \<le> length (filter (\<lambda>px. spec_cellOf px = c) pixels)"
    using act by (simp add: spec_active_def spec_cellCount_def THRESHOLD_def)
  then have "filter (\<lambda>px. spec_cellOf px = c) pixels \<noteq> []" by auto
  then obtain px where px: "px \<in> set pixels" "spec_cellOf px = c"
    by (metis (mono_tags, lifting) filter_False)
  have x: "fst c < gridSize width" and y: "snd c < gridSize height"
    using pixel_cell(1,2)[OF ok px(1)] px(2) by simp_all
  have "snd c * gridSize width + fst c < gridSize width * gridSize height"
    using x y by (rule index_bound)
  moreover have "coords (gridSize width) (snd c * gridSize width + fst c) = c"
    using index_coords[OF x, of "snd c"] by (simp add: coords_def)
  ultimately show ?thesis using x y by blast
qed

lemma component_bridge:
  assumes ok: "pixelsOK profs width height pixels"
    and cells: "\<forall>i < gridSize width * gridSize height.
           count (grid ! i) = spec_cellCount pixels (coords (gridSize width) i)"
  shows "coords (gridSize width) ` component grid (gridSize width) (gridSize height) s
     = spec_component pixels (coords (gridSize width) s)"
proof -
  let ?W = "gridSize width" and ?H = "gridSize height"
  let ?E = "edge grid ?W ?H"
  let ?R = "{(u, v). spec_active pixels v \<and> adj4 u v}"
  have act: "active grid i \<longleftrightarrow> spec_active pixels (coords ?W i)" if "i < ?W * ?H" for i
    using cells that by (simp add: active_def spec_active_def)
  have fwd: "(coords ?W a, coords ?W b) \<in> ?R" if "(a, b) \<in> ?E" for a b
    using that act by (auto simp: edge_iff)
  have sub1: "coords ?W ` component grid ?W ?H s \<subseteq> spec_component pixels (coords ?W s)"
  proof
    fix u assume "u \<in> coords ?W ` component grid ?W ?H s"
    then obtain c where c: "(s, c) \<in> ?E\<^sup>*" "u = coords ?W c" by (auto simp: component_def)
    have "(coords ?W s, coords ?W c) \<in> ?R\<^sup>*"
      using c(1)
    proof (induction rule: rtrancl_induct)
      case base
      then show ?case by simp
    next
      case (step y z)
      then show ?case using fwd[of y z] by (meson rtrancl.rtrancl_into_rtrancl)
    qed
    then show "u \<in> spec_component pixels (coords ?W s)" by (simp add: spec_component_def c(2))
  qed
  have sub2: "spec_component pixels (coords ?W s) \<subseteq> coords ?W ` component grid ?W ?H s"
  proof
    fix u assume "u \<in> spec_component pixels (coords ?W s)"
    then have "(coords ?W s, u) \<in> ?R\<^sup>*" by (simp add: spec_component_def)
    then have "\<exists>c. (s, c) \<in> ?E\<^sup>* \<and> coords ?W c = u"
    proof (induction rule: rtrancl_induct)
      case base
      then show ?case by blast
    next
      case (step y z)
      then obtain c where c: "(s, c) \<in> ?E\<^sup>*" "coords ?W c = y" by blast
      have z: "spec_active pixels z" "adj4 y z" using step.hyps(2) by simp_all
      define j where "j = snd z * ?W + fst z"
      have j: "j < ?W * ?H" "coords ?W j = z"
        using spec_active_in_range[OF ok z(1)] by (simp_all add: j_def)
      have "(c, j) \<in> ?E"
        unfolding edge_iff using j z c(2) act[OF j(1)] by simp
      then have "(s, j) \<in> ?E\<^sup>*" using c(1) by (rule rtrancl_into_rtrancl[rotated])
      then show ?case using j(2) by blast
    qed
    then show "u \<in> coords ?W ` component grid ?W ?H s" by (auto simp: component_def)
  qed
  show ?thesis using sub1 sub2 by blast
qed

lemma sums_bridge:
  assumes ok: "pixelsOK profs width height pixels"
    and cells: "\<forall>i < gridSize width * gridSize height.
           count (grid ! i) = spec_cellCount pixels (coords (gridSize width) i)
         \<and> profiles (grid ! i)
             = tallyPixels (filter (\<lambda>px. spec_cellOf px = coords (gridSize width) i) pixels) []"
    and C: "C \<subseteq> {..<gridSize width * gridSize height}"
  shows "compTotal grid C = spec_groupTotal pixels (coords (gridSize width) ` C)"
    "compTally grid C k = spec_groupTally pixels (coords (gridSize width) ` C) k"
proof -
  let ?W = "gridSize width"
  have fin: "finite C" using C by (rule finite_subset) simp
  have inj: "inj_on (coords ?W) C" by (rule inj_onI) (rule coords_inj)
  have "compTotal grid C = (\<Sum>c \<in> C. length (filter (\<lambda>px. spec_cellOf px = coords ?W c \<and> True) pixels))"
    unfolding compTotal_def
  proof (rule sum.cong[OF refl])
    fix c assume "c \<in> C"
    then have "c < ?W * gridSize height" using C by blast
    then show "count (grid ! c) = length (filter (\<lambda>px. spec_cellOf px = coords ?W c \<and> True) pixels)"
      using cells by (simp add: spec_cellCount_def)
  qed
  also have "\<dots> = (\<Sum>u \<in> coords ?W ` C. length (filter (\<lambda>px. spec_cellOf px = u \<and> True) pixels))"
    by (simp add: sum.reindex[OF inj])
  also have "\<dots> = length (filter (\<lambda>px. spec_cellOf px \<in> coords ?W ` C \<and> True) pixels)"
    using fin by (intro sum_filter_length) simp
  finally show "compTotal grid C = spec_groupTotal pixels (coords ?W ` C)"
    by (simp add: spec_groupTotal_def)
  have "compTally grid C k
      = (\<Sum>c \<in> C. length (filter (\<lambda>px. spec_cellOf px = coords ?W c \<and> pixelLabel px = k) pixels))"
    unfolding compTally_def
  proof (rule sum.cong[OF refl])
    fix c assume "c \<in> C"
    then have "c < ?W * gridSize height" using C by blast
    then have "profiles (grid ! c)
        = tallyPixels (filter (\<lambda>px. spec_cellOf px = coords ?W c) pixels) []"
      using cells by simp
    then show "tallyOf (profiles (grid ! c)) k
        = length (filter (\<lambda>px. spec_cellOf px = coords ?W c \<and> pixelLabel px = k) pixels)"
      by (simp add: tallyPixels_tally tallyOf_Nil conj_commute)
  qed
  also have "\<dots> = (\<Sum>u \<in> coords ?W ` C.
        length (filter (\<lambda>px. spec_cellOf px = u \<and> pixelLabel px = k) pixels))"
    by (simp add: sum.reindex[OF inj])
  also have "\<dots> = length (filter (\<lambda>px. spec_cellOf px \<in> coords ?W ` C \<and> pixelLabel px = k) pixels)"
    using fin by (intro sum_filter_length) simp
  finally show "compTally grid C k = spec_groupTally pixels (coords ?W ` C) k"
    by (simp add: spec_groupTally_def)
qed


lemma finding_bridge:
  assumes ok: "pixelsOK profs width height pixels"
    and cells: "\<forall>i < gridSize width * gridSize height.
           count (grid ! i) = spec_cellCount pixels (coords (gridSize width) i)
         \<and> profiles (grid ! i)
             = tallyPixels (filter (\<lambda>px. spec_cellOf px = coords (gridSize width) i) pixels) []"
    and C: "C \<subseteq> {..<gridSize width * gridSize height}"
    and b: "boxOfComp profs grid (gridSize width) C b"
  shows "spec_finding profs pixels (coords (gridSize width) ` C) b"
proof -
  have x: "fst ` coords (gridSize width) ` C = (\<lambda>c. c mod gridSize width) ` C"
    by (simp add: image_image coords_def)
  have y: "snd ` coords (gridSize width) ` C = (\<lambda>c. c div gridSize width) ` C"
    by (simp add: image_image coords_def)
  show ?thesis
    using b unfolding spec_finding_def boxOfComp_def x y
      sums_bridge(1)[OF ok cells C] sums_bridge(2)[OF ok cells C]
    by blast
qed

lemma clusterDetectionsIn_unfold:
  "clusterDetectionsIn profs pixels width height =
     (case fillGrid (gridSize width) pixels
             (replicate (gridSize width * gridSize height) emptyCell) of
        Inl e \<Rightarrow> Inl e
      | Inr grid \<Rightarrow>
         (case scanCells profs grid (gridSize width) (gridSize height)
                 (map (cellAt (gridSize width)) [0..<gridSize width * gridSize height]) ({}, []) of
            Inl e \<Rightarrow> Inl e
          | Inr (vis, boxes) \<Rightarrow> Inr boxes))"
  unfolding clusterDetectionsIn_def Let_def gridSize_def[symmetric] emptyCell_def[symmetric]
    cellOrder_index ..


lemma spec_component_group:
  assumes c: "c \<in> A"
    and conn: "\<forall>d \<in> A. (c, d) \<in> {(u, v). u \<in> A \<and> v \<in> A \<and> adj4 u v}\<^sup>*"
    and actives: "{c. spec_active pixels c} = A \<union> B"
    and sep: "\<forall>u \<in> A. \<forall>v \<in> B. \<not> adj4 u v"
  shows "spec_component pixels c = A"
proof
  show "spec_component pixels c \<subseteq> A"
  proof
    fix d assume "d \<in> spec_component pixels c"
    then have "(c, d) \<in> {(u, v). spec_active pixels v \<and> adj4 u v}\<^sup>*"
      by (simp add: spec_component_def)
    then show "d \<in> A"
    proof (induction rule: rtrancl_induct)
      case base
      then show ?case using c .
    next
      case (step y z)
      then have "spec_active pixels z" "adj4 y z" by simp_all
      then have "z \<in> A \<union> B" using actives by blast
      moreover have "z \<notin> B" using sep step.IH \<open>adj4 y z\<close> by blast
      ultimately show ?case by blast
    qed
  qed
  show "A \<subseteq> spec_component pixels c"
  proof
    fix d assume "d \<in> A"
    then have "(c, d) \<in> {(u, v). u \<in> A \<and> v \<in> A \<and> adj4 u v}\<^sup>*" using conn by blast
    moreover have "{(u, v). u \<in> A \<and> v \<in> A \<and> adj4 u v} \<subseteq> {(u, v). spec_active pixels v \<and> adj4 u v}"
      using actives by blast
    ultimately have "(c, d) \<in> {(u, v). spec_active pixels v \<and> adj4 u v}\<^sup>*"
      using rtrancl_mono by blast
    then show "d \<in> spec_component pixels c" by (simp add: spec_component_def)
  qed
qed

lemma cluster_two_groups:
  assumes ok: "pixelsOK profs width height pixels"
    and actives: "{c. spec_active pixels c} = A \<union> B"
    and ne: "A \<noteq> {}" "B \<noteq> {}" and disj: "A \<inter> B = {}"
    and connA: "\<forall>c \<in> A. \<forall>d \<in> A. (c, d) \<in> {(u, v). u \<in> A \<and> v \<in> A \<and> adj4 u v}\<^sup>*"
    and connB: "\<forall>c \<in> B. \<forall>d \<in> B. (c, d) \<in> {(u, v). u \<in> B \<and> v \<in> B \<and> adj4 u v}\<^sup>*"
    and sep: "\<forall>u \<in> A. \<forall>v \<in> B. \<not> adj4 u v"
    and totA: "8 \<le> spec_groupTotal pixels A" and totB: "8 \<le> spec_groupTotal pixels B"
  shows "\<exists>bA bB. (clusterDetectionsIn profs pixels width height = Inr [bA, bB]
                  \<or> clusterDetectionsIn profs pixels width height = Inr [bB, bA])
     \<and> spec_finding profs pixels A bA \<and> spec_finding profs pixels B bB"
proof -
  let ?W = "gridSize width" and ?H = "gridSize height"
  let ?N = "?W * ?H"
  obtain grid where g: "fillGrid ?W pixels (replicate ?N emptyCell) = Inr grid"
    "gridOK profs grid ?N"
    "\<forall>i < ?N. count (grid ! i) = spec_cellCount pixels (coords ?W i)
         \<and> profiles (grid ! i) = tallyPixels (filter (\<lambda>px. spec_cellOf px = coords ?W i) pixels) []"
    using grid_of_pixels[OF ok] by blast
  have cnt: "\<forall>i < ?N. count (grid ! i) = spec_cellCount pixels (coords ?W i)"
    using g(3) by blast
  have act: "active grid i \<longleftrightarrow> spec_active pixels (coords ?W i)" if "i < ?N" for i
    using cnt that by (simp add: active_def spec_active_def)
  define A' where "A' = {i. i < ?N \<and> coords ?W i \<in> A}"
  define B' where "B' = {i. i < ?N \<and> coords ?W i \<in> B}"
  have sep': "\<forall>u \<in> B. \<forall>v \<in> A. \<not> adj4 u v" using sep adj4_sym by blast
  have actives': "{c. spec_active pixels c} = B \<union> A" using actives by blast
  have img: "coords ?W ` {i. i < ?N \<and> coords ?W i \<in> S} = S" if "S \<subseteq> A \<union> B" for S
  proof
    show "coords ?W ` {i. i < ?N \<and> coords ?W i \<in> S} \<subseteq> S" by blast
    show "S \<subseteq> coords ?W ` {i. i < ?N \<and> coords ?W i \<in> S}"
    proof
      fix c assume cS: "c \<in> S"
      then have "spec_active pixels c" using that actives by blast
      then have "snd c * ?W + fst c < ?N" "coords ?W (snd c * ?W + fst c) = c"
        using spec_active_in_range[OF ok] by blast+
      then show "c \<in> coords ?W ` {i. i < ?N \<and> coords ?W i \<in> S}"
        using cS by (metis (mono_tags, lifting) image_eqI mem_Collect_eq)
    qed
  qed
  have imgA: "coords ?W ` A' = A" unfolding A'_def by (rule img) simp
  have imgB: "coords ?W ` B' = B" unfolding B'_def by (rule img) simp
  have AN: "A' \<subseteq> {..<?N}" and BN: "B' \<subseteq> {..<?N}" by (auto simp: A'_def B'_def)
  have actIdx: "{i. i < ?N \<and> active grid i} = A' \<union> B'"
    using act actives by (auto simp: A'_def B'_def)
  have disj': "A' \<inter> B' = {}" using disj by (auto simp: A'_def B'_def)
  have ne': "A' \<noteq> {}" "B' \<noteq> {}" using ne imgA imgB by blast+
  have comp: "component grid ?W ?H s = S'"
    if "s \<in> S'" "S' \<subseteq> {..<?N}" "spec_component pixels (coords ?W s) = coords ?W ` S'" for s S'
  proof -
    have sN: "s < ?N" using that(1,2) by blast
    have "coords ?W ` component grid ?W ?H s = coords ?W ` S'"
      using component_bridge[OF ok cnt, of s] that(3) by simp
    then show ?thesis
      by (metis coords_inj inj_image_eq_iff inj_onI)
  qed
  have compA: "\<forall>s \<in> A'. component grid ?W ?H s = A'"
  proof
    fix s assume s: "s \<in> A'"
    then have "coords ?W s \<in> A" by (simp add: A'_def)
    then have "spec_component pixels (coords ?W s) = A"
      using connA actives sep by (intro spec_component_group[where B = B]) auto
    then show "component grid ?W ?H s = A'" using comp[OF s AN] imgA by simp
  qed
  have compB: "\<forall>s \<in> B'. component grid ?W ?H s = B'"
  proof
    fix s assume s: "s \<in> B'"
    then have "coords ?W s \<in> B" by (simp add: B'_def)
    then have "spec_component pixels (coords ?W s) = B"
      using connB actives' sep' by (intro spec_component_group[where B = A]) auto
    then show "component grid ?W ?H s = B'" using comp[OF s BN] imgB by simp
  qed
  have tA: "\<not> compTotal grid A' < 8"
    using totA sums_bridge(1)[OF ok g(3) AN] by (simp add: imgA)
  have tB: "\<not> compTotal grid B' < 8"
    using totB sums_bridge(1)[OF ok g(3) BN] by (simp add: imgB)
  have fin: "finite (A' \<union> B')" using AN BN by (meson finite_Un finite_lessThan finite_subset)
  define m where "m = Min (A' \<union> B')"
  have mIn: "m \<in> A' \<union> B'" unfolding m_def using fin ne' by (intro Min_in) auto
  have mLe: "\<forall>i \<in> A' \<union> B'. m \<le> i" unfolding m_def using fin by simp
  have res: "clusterDetectionsIn profs pixels width height = Inr boxes"
    if "scanCells profs grid ?W ?H (map (cellAt ?W) [0..<?N]) ({}, []) = Inr (V, boxes)" for V boxes
    unfolding clusterDetectionsIn_unfold by (simp add: g(1) that)
  show ?thesis
  proof (cases "m \<in> A'")
    case True
    obtain bA bB where r: "scanCells profs grid ?W ?H (map (cellAt ?W) [0..<?N]) ({}, [])
            = Inr (A' \<union> B', [bA, bB])"
      "boxOfComp profs grid ?W A' bA" "boxOfComp profs grid ?W B' bB"
      using scan_two_components[OF g(2) actIdx disj' ne'(2) True mLe _ compB tA tB] compA True
      by blast
    have "spec_finding profs pixels A bA"
      using finding_bridge[OF ok g(3) AN r(2)] by (simp add: imgA)
    moreover have "spec_finding profs pixels B bB"
      using finding_bridge[OF ok g(3) BN r(3)] by (simp add: imgB)
    ultimately show ?thesis using res[OF r(1)] by blast
  next
    case False
    then have mB: "m \<in> B'" using mIn by blast
    have actIdx': "{i. i < ?N \<and> active grid i} = B' \<union> A'" using actIdx by blast
    have disj'': "B' \<inter> A' = {}" using disj' by blast
    have mLe': "\<forall>i \<in> B' \<union> A'. m \<le> i" using mLe by blast
    obtain bB bA where r: "scanCells profs grid ?W ?H (map (cellAt ?W) [0..<?N]) ({}, [])
            = Inr (B' \<union> A', [bB, bA])"
      "boxOfComp profs grid ?W B' bB" "boxOfComp profs grid ?W A' bA"
      using scan_two_components[OF g(2) actIdx' disj'' ne'(1) mB mLe' _ compA tB tA] compB mB
      by blast
    have "spec_finding profs pixels A bA"
      using finding_bridge[OF ok g(3) AN r(3)] by (simp add: imgA)
    moreover have "spec_finding profs pixels B bB"
      using finding_bridge[OF ok g(3) BN r(2)] by (simp add: imgB)
    ultimately show ?thesis using res[OF r(1)] by blast
  qed
qed

text \<open>
  C8. Let the active cells of the cluster grid (cell size 12, at least 3 matched pixels
  in the cell) fall into two non-empty disjoint groups, each connected under
  4-adjacency, with no cell of one group 4-adjacent to a cell of the other (as when
  more than one empty cell separates them), each group holding at least 8 matched
  pixels. Then \<open>clusterDetections\<close> returns exactly two findings, one with the
  bounding box and pixel total of each group.
\<close>

theorem two_groups_two_findings:
  assumes "pixelsOK BLOOD_PROFILES width height pixels"
    and "{c. spec_active pixels c} = A \<union> B"
    and "A \<noteq> {}" and "B \<noteq> {}" and "A \<inter> B = {}"
    and "\<forall>c \<in> A. \<forall>d \<in> A. (c, d) \<in> {(u, v). u \<in> A \<and> v \<in> A \<and> adj4 u v}\<^sup>*"
    and "\<forall>c \<in> B. \<forall>d \<in> B. (c, d) \<in> {(u, v). u \<in> B \<and> v \<in> B \<and> adj4 u v}\<^sup>*"
    and "\<forall>u \<in> A. \<forall>v \<in> B. \<not> adj4 u v"
    and "8 \<le> spec_groupTotal pixels A" and "8 \<le> spec_groupTotal pixels B"
  shows "\<exists>bA bB. (clusterDetections pixels width height = Inr [bA, bB]
                  \<or> clusterDetections pixels width height = Inr [bB, bA])
     \<and> spec_finding BLOOD_PROFILES pixels A bA \<and> spec_finding BLOOD_PROFILES pixels B bB"
  unfolding clusterDetections_def using assms by (rule cluster_two_groups)

lemma twoGroups_cells:
  "map spec_cellOf twoGroups = replicate 8 (0, 0) @ replicate 8 (3, 0)"
  by code_simp

lemma spec_cellCount_count_list:
  "spec_cellCount pixels c = count_list (map spec_cellOf pixels) c"
  unfolding spec_cellCount_def by (induction pixels) simp_all

lemma count_list_replicate: "count_list (replicate n x) y = (if x = y then n else 0)"
  by (induction n) auto

lemma twoGroups_count:
  "spec_cellCount twoGroups c = (if c = (0, 0) then 8 else if c = (3, 0) then 8 else 0)"
  unfolding spec_cellCount_count_list twoGroups_cells
  by (auto simp: count_list_replicate)

lemma twoGroups_active: "{c. spec_active twoGroups c} = {(0, 0)} \<union> {(3, 0)}"
  by (auto simp: spec_active_def twoGroups_count THRESHOLD_def split: if_splits)

lemma twoGroups_ok: "pixelsOK BLOOD_PROFILES 48 12 twoGroups"
  by (simp add: pixelsOK_def twoGroups_def pixelLabel_def BLOOD_PROFILES_def)

lemma spec_groupTotal_count_list:
  "spec_groupTotal pixels {c} = count_list (map spec_cellOf pixels) c"
  unfolding spec_groupTotal_def by (induction pixels) simp_all

lemma twoGroups_eval:
  "clusterDetections twoGroups 48 12 =
     Inr [\<lparr>box_x = 0, box_y = 0, box_w = 12, box_h = 12, box_label = ''Bright Red'',
           box_color = ''#60a5fa'', box_severity = ''look_into'',
           box_hatchStyle = Some ''vertical'', box_pixels = 8\<rparr>,
          \<lparr>box_x = 36, box_y = 0, box_w = 12, box_h = 12, box_label = ''Maroon'',
           box_color = ''#fb923c'', box_severity = ''monitor'',
           box_hatchStyle = Some ''diagonal'', box_pixels = 8\<rparr>]"
  by code_simp

theorem two_groups_two_findings_witness:
  "pixelsOK BLOOD_PROFILES 48 12 twoGroups
   \<and> {c. spec_active twoGroups c} = {(0, 0)} \<union> {(3, 0)}
   \<and> \<not> adj4 (0, 0) (3, 0)
   \<and> (\<exists>bA bB. clusterDetections twoGroups 48 12 = Inr [bA, bB]
         \<and> spec_finding BLOOD_PROFILES twoGroups {(0, 0)} bA
         \<and> spec_finding BLOOD_PROFILES twoGroups {(3, 0)} bB
         \<and> box_x bA = 0 \<and> box_x bB = 36)"
proof -
  have sep: "\<forall>u \<in> {(0, 0)}. \<forall>v \<in> {(3::nat, 0::nat)}. \<not> adj4 u v"
    by (simp add: adj4_def)
  have connA: "\<forall>c \<in> {(0::nat, 0::nat)}. \<forall>d \<in> {(0, 0)}.
      (c, d) \<in> {(u, v). u \<in> {(0, 0)} \<and> v \<in> {(0, 0)} \<and> adj4 u v}\<^sup>*"
    by simp
  have connB: "\<forall>c \<in> {(3::nat, 0::nat)}. \<forall>d \<in> {(3, 0)}.
      (c, d) \<in> {(u, v). u \<in> {(3, 0)} \<and> v \<in> {(3, 0)} \<and> adj4 u v}\<^sup>*"
    by simp
  have tA: "8 \<le> spec_groupTotal twoGroups {(0, 0)}"
    by (simp add: spec_groupTotal_count_list twoGroups_cells count_list_replicate)
  have tB: "8 \<le> spec_groupTotal twoGroups {(3, 0)}"
    by (simp add: spec_groupTotal_count_list twoGroups_cells count_list_replicate)
  obtain bA bB where b:
    "clusterDetections twoGroups 48 12 = Inr [bA, bB] \<or> clusterDetections twoGroups 48 12 = Inr [bB, bA]"
    "spec_finding BLOOD_PROFILES twoGroups {(0, 0)} bA"
    "spec_finding BLOOD_PROFILES twoGroups {(3, 0)} bB"
    using two_groups_two_findings[OF twoGroups_ok twoGroups_active _ _ _ connA connB sep tA tB]
    by auto
  have xa: "box_x bA = 0" and xb: "box_x bB = 36"
    using b(2,3) by (simp_all add: spec_finding_def GRID_def)
  have "clusterDetections twoGroups 48 12 = Inr [bA, bB]"
    using b(1) xa xb unfolding twoGroups_eval by auto
  then show ?thesis using b(2,3) xa xb twoGroups_ok twoGroups_active sep by auto
qed







section \<open>The sample type\<close>









end
